theory Spec2Isabelle
  imports Complex_Main "HOL-Library.Multiset" "HOL-Library.List_Lexorder" "HOL-Library.Char_ord"
begin

section \<open>Session record (read view)\<close>

text \<open>
  The decision functions read a \<open>SessionState\<close> whose class lives in
  \<open>models.session\<close>. Only the attributes the functions read are modelled. The two
  method calls \<open>intel.actionable_category_count()\<close> and \<open>intel.has_high_value()\<close>
  are represented by the values they return. Python floats that hold a time or a score are
  modelled by the rational number they denote.
\<close>

record intel_view =
  actionable_category_count :: int
  has_high_value :: bool
  upi_ids :: "string list"
  crypto_wallets :: "string list"

record session_state =
  finalized :: bool
  scam_detected :: bool
  first_scam_timestamp :: "rat option"
  scammer_messages :: int
  agent_turns :: int
  rolling_scam_score :: rat
  intel :: intel_view

section \<open>Strategy classifier (\<open>services/strategy_state.py\<close>)\<close>

definition STRATEGY_NEUTRAL :: string where
  "STRATEGY_NEUTRAL = ''Neutral''"

definition STRATEGY_SUSPICIOUS :: string where
  "STRATEGY_SUSPICIOUS = ''Suspicious''"

definition STRATEGY_EXTRACTION_MODE :: string where
  "STRATEGY_EXTRACTION_MODE = ''Extraction Mode''"

definition STRATEGY_HIGH_CONFIDENCE :: string where
  "STRATEGY_HIGH_CONFIDENCE = ''High Confidence Scam''"

definition STRATEGY_HARVEST_MODE :: string where
  "STRATEGY_HARVEST_MODE = ''Intelligence Harvest Mode''"

text \<open>
  The four keyword arguments default to \<open>None\<close>, in which case the value is read from
  the session record.
\<close>

definition infer_strategy_state ::
  "session_state \<Rightarrow> rat option \<Rightarrow> bool option \<Rightarrow> int option \<Rightarrow> int option \<Rightarrow> string" where
  "infer_strategy_state state rolling_score scam_detected_arg actionable_count agent_turns_arg =
     (let score = (case rolling_score of None \<Rightarrow> rolling_scam_score state | Some s \<Rightarrow> s);
          actionable = (case actionable_count of
                          None \<Rightarrow> actionable_category_count (intel state) | Some a \<Rightarrow> a);
          detected = (case scam_detected_arg of None \<Rightarrow> scam_detected state | Some d \<Rightarrow> d);
          turns = (case agent_turns_arg of None \<Rightarrow> agent_turns state | Some t \<Rightarrow> t)
      in if score < 3 \<and> \<not> detected then STRATEGY_NEUTRAL
         else if score < 6 \<and> \<not> detected then STRATEGY_SUSPICIOUS
         else if score < 10 then STRATEGY_EXTRACTION_MODE
         else if actionable \<ge> 3 \<or> turns \<ge> 5 then STRATEGY_HARVEST_MODE
         else STRATEGY_HIGH_CONFIDENCE)"

text \<open>
  The position of a tier name in the order the specification gives:
  Neutral, Suspicious, Extraction Mode, Intelligence Harvest Mode, High Confidence Scam.
  A string that names no tier gets no position.
\<close>

definition tier_position :: "string \<Rightarrow> nat option" where
  "tier_position t =
     (if t = ''Neutral'' then Some 0
      else if t = ''Suspicious'' then Some 1
      else if t = ''Extraction Mode'' then Some 2
      else if t = ''Intelligence Harvest Mode'' then Some 3
      else if t = ''High Confidence Scam'' then Some 4
      else None)"

definition tier_le :: "string \<Rightarrow> string \<Rightarrow> bool" where
  "tier_le a b =
     (case (tier_position a, tier_position b) of
        (Some i, Some j) \<Rightarrow> i \<le> j
      | _ \<Rightarrow> False)"

section \<open>Engagement finalizer (\<open>services/engagement_policy.py\<close>)\<close>

text \<open>Python's \<open>int(x)\<close> on a float truncates toward zero.\<close>

definition py_int_of_float :: "rat \<Rightarrow> int" where
  "py_int_of_float x = (if x \<ge> 0 then \<lfloor>x\<rfloor> else \<lceil>x\<rceil>)"

text \<open>
  \<open>time.time()\<close> is read once per call; its value is the argument \<open>now\<close>.
\<close>

definition should_finalize :: "rat \<Rightarrow> session_state \<Rightarrow> bool" where
  "should_finalize now state =
     (if finalized state \<or> \<not> scam_detected state then False
      else
        let actionable_categories = actionable_category_count (intel state);
            has_high = has_high_value (intel state);
            has_payment_id = (upi_ids (intel state) \<noteq> [] \<or> crypto_wallets (intel state) \<noteq> []);
            elapsed_seconds = (case first_scam_timestamp state of
                                 None \<Rightarrow> 0
                               | Some t0 \<Rightarrow> py_int_of_float (now - t0));
            total_messages = scammer_messages state + agent_turns state
        in if agent_turns state \<ge> 12 then True
           else if has_payment_id \<and> actionable_categories \<ge> 2 \<and> agent_turns state \<ge> 5
                   \<and> total_messages \<ge> 10 \<and> elapsed_seconds \<ge> 60 then True
           else if actionable_categories \<ge> 3 \<and> agent_turns state \<ge> 10 \<and> elapsed_seconds \<ge> 60
                then True
           else if scammer_messages state \<ge> 12 \<and> agent_turns state \<ge> 10 \<and> elapsed_seconds \<ge> 60
                then True
           else False)"

section \<open>Call admission gate (\<open>services/llm_load_control.py\<close>)\<close>

text \<open>
  A Python dictionary with string keys is a map; reading a key that is absent raises
  \<open>KeyError\<close>, which the model returns as a value. A deque is a list whose head is the
  left end. Timestamps are the values of \<open>time.time()\<close>, passed in as \<open>now\<close>.
\<close>

datatype py_error = KeyError string | TypeError | ValueError | OverflowError

definition lookup :: "(string \<rightharpoonup> 'v) \<Rightarrow> string \<Rightarrow> py_error + 'v" where
  "lookup d k = (case d k of None \<Rightarrow> Inl (KeyError k) | Some v \<Rightarrow> Inr v)"

definition bind_e :: "py_error + 'a \<Rightarrow> ('a \<Rightarrow> py_error + 'b) \<Rightarrow> py_error + 'b" where
  "bind_e m f = (case m of Inl e \<Rightarrow> Inl e | Inr v \<Rightarrow> f v)"

record LLMGateSnapshot =
  enabled :: bool
  limits :: "string \<rightharpoonup> int"
  in_window_calls :: "string \<rightharpoonup> int"
  dropped_calls :: "string \<rightharpoonup> int"

record LLMCallGate =
  gate_enabled :: bool
  gate_global_limit :: int
  gate_stage_limits :: "string \<rightharpoonup> int"
  gate_behavior_sample_n :: int
  gate_calls :: "string \<rightharpoonup> rat list"
  gate_dropped :: "string \<rightharpoonup> int"

definition WINDOW_SECONDS :: rat where
  "WINDOW_SECONDS = 60"

text \<open>The constructor, with its arguments already coerced by \<open>bool\<close> and \<open>int\<close>.\<close>

definition LLMCallGate_init :: "bool \<Rightarrow> int \<Rightarrow> int \<Rightarrow> int \<Rightarrow> int \<Rightarrow> int \<Rightarrow> LLMCallGate" where
  "LLMCallGate_init enabled_arg global_rpm_limit reply_rpm_limit behavior_rpm_limit
       extraction_rpm_limit behavior_sample_every_n_scam_messages =
     \<lparr>gate_enabled = enabled_arg,
      gate_global_limit = max 1 global_rpm_limit,
      gate_stage_limits = [''reply'' \<mapsto> max 1 reply_rpm_limit,
                           ''behavior'' \<mapsto> max 1 behavior_rpm_limit,
                           ''extraction'' \<mapsto> max 1 extraction_rpm_limit],
      gate_behavior_sample_n = max 1 behavior_sample_every_n_scam_messages,
      gate_calls = [''global'' \<mapsto> [], ''reply'' \<mapsto> [], ''behavior'' \<mapsto> [],
                    ''extraction'' \<mapsto> []],
      gate_dropped = [''reply'' \<mapsto> 0, ''behavior'' \<mapsto> 0, ''extraction'' \<mapsto> 0]\<rparr>"

text \<open>The loop of \<open>_prune\<close>: pop from the left while the head is older than the cutoff.\<close>

fun prune_loop :: "rat list \<Rightarrow> rat \<Rightarrow> rat list" where
  "prune_loop [] cutoff = []"
| "prune_loop (t # queue) cutoff = (if t < cutoff then prune_loop queue cutoff else t # queue)"

definition prune :: "rat list \<Rightarrow> rat \<Rightarrow> rat list" where
  "prune queue now = (let cutoff = now - WINDOW_SECONDS in prune_loop queue cutoff)"

definition behavior_sampling_allows :: "LLMCallGate \<Rightarrow> int \<Rightarrow> bool" where
  "behavior_sampling_allows g scammer_message_index =
     (if gate_behavior_sample_n g \<le> 1 then True
      else if scammer_message_index \<le> 1 then True
      else (scammer_message_index - 1) mod gate_behavior_sample_n g = 0)"

text \<open>
  The deques live in the dictionary \<open>_calls\<close> and are mutated in place. A statement
  that mutates the deque stored under a key is an update of the dictionary at that key:
  \<open>prune_at\<close> is \<open>self._prune(self._calls[k], now)\<close>, \<open>append_at\<close> is
  \<open>self._calls[k].append(now)\<close>, and \<open>increment_at\<close> is \<open>self._dropped[k] += 1\<close>.
\<close>

definition prune_at :: "(string \<rightharpoonup> rat list) \<Rightarrow> string \<Rightarrow> rat \<Rightarrow> py_error + (string \<rightharpoonup> rat list)" where
  "prune_at calls k now = bind_e (lookup calls k) (\<lambda>queue. Inr (calls(k \<mapsto> prune queue now)))"

definition append_at :: "(string \<rightharpoonup> rat list) \<Rightarrow> string \<Rightarrow> rat \<Rightarrow> py_error + (string \<rightharpoonup> rat list)" where
  "append_at calls k now = bind_e (lookup calls k) (\<lambda>queue. Inr (calls(k \<mapsto> queue @ [now])))"

definition increment_at :: "(string \<rightharpoonup> int) \<Rightarrow> string \<Rightarrow> py_error + (string \<rightharpoonup> int)" where
  "increment_at counters k = bind_e (lookup counters k) (\<lambda>d. Inr (counters(k \<mapsto> d + 1)))"

text \<open>
  \<open>allow\<close> returns its boolean together with the gate after the call. The two queues
  are fetched from the dictionary first, then pruned one after the other, then measured.
\<close>

definition allow :: "LLMCallGate \<Rightarrow> string \<Rightarrow> int \<Rightarrow> rat \<Rightarrow> py_error + (bool \<times> LLMCallGate)" where
  "allow g stage scammer_message_index now =
     (if stage \<notin> dom (gate_stage_limits g) then Inr (False, g)
      else if \<not> gate_enabled g then Inr (True, g)
      else if stage = ''behavior''
              \<and> \<not> behavior_sampling_allows g (max 0 scammer_message_index) then Inr (False, g)
      else
        bind_e (lookup (gate_calls g) ''global'') (\<lambda>_.
        bind_e (lookup (gate_calls g) stage) (\<lambda>_.
        bind_e (prune_at (gate_calls g) ''global'' now) (\<lambda>calls1.
        bind_e (prune_at calls1 stage now) (\<lambda>calls2.
        bind_e (lookup calls2 ''global'') (\<lambda>global_queue.
          if int (length global_queue) \<ge> gate_global_limit g then
            bind_e (increment_at (gate_dropped g) stage) (\<lambda>dropped1.
              Inr (False, g\<lparr>gate_calls := calls2, gate_dropped := dropped1\<rparr>))
          else
            bind_e (lookup calls2 stage) (\<lambda>stage_queue.
            bind_e (lookup (gate_stage_limits g) stage) (\<lambda>stage_limit.
              if int (length stage_queue) \<ge> stage_limit then
                bind_e (increment_at (gate_dropped g) stage) (\<lambda>dropped1.
                  Inr (False, g\<lparr>gate_calls := calls2, gate_dropped := dropped1\<rparr>))
              else
                bind_e (append_at calls2 ''global'' now) (\<lambda>calls3.
                bind_e (append_at calls3 stage now) (\<lambda>calls4.
                  Inr (True, g\<lparr>gate_calls := calls4\<rparr>)))))))))))"

definition snapshot :: "LLMCallGate \<Rightarrow> rat \<Rightarrow> py_error + (LLMGateSnapshot \<times> LLMCallGate)" where
  "snapshot g now =
     (let g1 = g\<lparr>gate_calls := (\<lambda>k. map_option (\<lambda>queue. prune queue now) (gate_calls g k))\<rparr> in
      bind_e (lookup (gate_stage_limits g1) ''reply'') (\<lambda>reply_limit.
      bind_e (lookup (gate_stage_limits g1) ''behavior'') (\<lambda>behavior_limit.
      bind_e (lookup (gate_stage_limits g1) ''extraction'') (\<lambda>extraction_limit.
      bind_e (lookup (gate_calls g1) ''global'') (\<lambda>global_queue.
      bind_e (lookup (gate_calls g1) ''reply'') (\<lambda>reply_queue.
      bind_e (lookup (gate_calls g1) ''behavior'') (\<lambda>behavior_queue.
      bind_e (lookup (gate_calls g1) ''extraction'') (\<lambda>extraction_queue.
        Inr (\<lparr>enabled = gate_enabled g1,
              limits = [''globalRpm'' \<mapsto> gate_global_limit g1,
                        ''replyRpm'' \<mapsto> reply_limit,
                        ''behaviorRpm'' \<mapsto> behavior_limit,
                        ''extractionRpm'' \<mapsto> extraction_limit],
              in_window_calls = [''global'' \<mapsto> int (length global_queue),
                                 ''reply'' \<mapsto> int (length reply_queue),
                                 ''behavior'' \<mapsto> int (length behavior_queue),
                                 ''extraction'' \<mapsto> int (length extraction_queue)],
              dropped_calls = gate_dropped g1\<rparr>, g1)))))))))"

text \<open>
  A sequence of calls on one gate, each with the clock value it reads. \<open>run\<close> gives the
  gate after the sequence; \<open>admitted_times\<close> lists the clock values of the \<open>allow\<close>
  calls that returned true.
\<close>

datatype gate_call = Allow string int rat | Snapshot rat

fun call_time :: "gate_call \<Rightarrow> rat" where
  "call_time (Allow stage i now) = now"
| "call_time (Snapshot now) = now"

fun step :: "LLMCallGate \<Rightarrow> gate_call \<Rightarrow> py_error + (bool \<times> LLMCallGate)" where
  "step g (Allow stage i now) = allow g stage i now"
| "step g (Snapshot now) = bind_e (snapshot g now) (\<lambda>(s, g'). Inr (False, g'))"

fun run :: "LLMCallGate \<Rightarrow> gate_call list \<Rightarrow> py_error + LLMCallGate" where
  "run g [] = Inr g"
| "run g (c # cs) = bind_e (step g c) (\<lambda>(ok, g'). run g' cs)"

fun admitted_times :: "LLMCallGate \<Rightarrow> gate_call list \<Rightarrow> rat list" where
  "admitted_times g [] = []"
| "admitted_times g (c # cs) =
     (case step g c of
        Inl e \<Rightarrow> []
      | Inr (ok, g') \<Rightarrow> (if ok then [call_time c] else []) @ admitted_times g' cs)"

text \<open>
  The boolean a caller of \<open>allow\<close> receives; a call that raises admits nothing.
\<close>

definition allowed :: "py_error + (bool \<times> LLMCallGate) \<Rightarrow> bool" where
  "allowed res = (case res of Inl e \<Rightarrow> False | Inr (ok, g') \<Rightarrow> ok)"

subsection \<open>Invariants of the gate used in the proofs\<close>

text \<open>
  The deque stored under a key (empty if the key is absent), the shape of the three
  dictionaries as the constructor builds them, and the timestamps of a queue that are not
  older than a cutoff.
\<close>

definition queue_of :: "LLMCallGate \<Rightarrow> string \<Rightarrow> rat list" where
  "queue_of g k = (case gate_calls g k of None \<Rightarrow> [] | Some q \<Rightarrow> q)"

definition gate_wf :: "LLMCallGate \<Rightarrow> bool" where
  "gate_wf g \<longleftrightarrow>
     dom (gate_stage_limits g) = {''reply'', ''behavior'', ''extraction''}
   \<and> dom (gate_calls g) = {''global'', ''reply'', ''behavior'', ''extraction''}
   \<and> dom (gate_dropped g) = {''reply'', ''behavior'', ''extraction''}"

definition in_window :: "rat \<Rightarrow> rat list \<Rightarrow> rat list" where
  "in_window c q = filter (\<lambda>t. c \<le> t) q"

text \<open>
  At clock value \<open>T\<close>: every queue is sorted and holds no timestamp later than \<open>T\<close>,
  and for every cutoff from \<open>T - 60\<close> on, the global queue has as many timestamps at or
  after the cutoff as the three stage queues together.
\<close>

definition gate_inv :: "LLMCallGate \<Rightarrow> rat \<Rightarrow> bool" where
  "gate_inv g T \<longleftrightarrow>
     gate_wf g
   \<and> (\<forall>k. sorted (queue_of g k) \<and> (\<forall>t \<in> set (queue_of g k). t \<le> T))
   \<and> (\<forall>c. T - 60 \<le> c \<longrightarrow>
          length (in_window c (queue_of g ''global'')) =
            length (in_window c (queue_of g ''reply''))
          + length (in_window c (queue_of g ''behavior''))
          + length (in_window c (queue_of g ''extraction'')))"

definition gate_config :: "LLMCallGate \<Rightarrow> bool \<times> int \<times> (string \<rightharpoonup> int) \<times> int" where
  "gate_config g =
     (gate_enabled g, gate_global_limit g, gate_stage_limits g, gate_behavior_sample_n g)"

definition pruned_all :: "LLMCallGate \<Rightarrow> rat \<Rightarrow> LLMCallGate" where
  "pruned_all g now =
     g\<lparr>gate_calls := (\<lambda>k. map_option (\<lambda>queue. prune queue now) (gate_calls g k))\<rparr>"

text \<open>
  For an enabled gate, the global queue and the list \<open>A\<close> of all admitted timestamps
  agree on every window that starts at \<open>T - 60\<close> or later.
\<close>

definition adm_inv :: "LLMCallGate \<Rightarrow> rat list \<Rightarrow> rat \<Rightarrow> bool" where
  "adm_inv g A T \<longleftrightarrow>
     gate_enabled g
   \<and> (\<forall>c. T - 60 \<le> c \<longrightarrow> in_window c A = in_window c (queue_of g ''global''))"

text \<open>
  Run a sequence of calls, then one more \<open>allow\<close>: its result and the stage's drop
  counter before and after it.
\<close>

definition run_then_allow ::
  "LLMCallGate \<Rightarrow> gate_call list \<Rightarrow> string \<Rightarrow> int \<Rightarrow> rat \<Rightarrow> py_error + (bool \<times> int option \<times> int option)" where
  "run_then_allow g0 cs stage i now =
     bind_e (run g0 cs) (\<lambda>g.
     bind_e (allow g stage i now) (\<lambda>(ok, g').
       Inr (ok, gate_dropped g stage, gate_dropped g' stage)))"

section \<open>Signal fusion engine (\<open>agent/behavior_analyzer.py\<close>)\<close>

subsection \<open>The six compiled patterns\<close>

text \<open>
  A message is a list of 8-bit characters read as code points U+0000 to U+00FF; characters
  beyond that range are not represented. The patterns use literals, \<open>\d\<close>, \<open>\S\<close>,
  \<open>.\<close>, \<open>+\<close> and \<open>*\<close> on a single character class, alternation, an optional
  literal, and \<open>\b\<close>; all of them are compiled with \<open>(?i)\<close>. The syntax tree below
  has exactly these constructs.
\<close>

datatype char_class = Lit char | Digit | NonSpace | AnyChar

datatype regex =
    Atom char_class
  | Seq regex regex
  | Alt regex regex
  | Star char_class
  | Plus char_class
  | WordBoundary
  | Epsilon

text \<open>
  Character tests of Python's \<open>re\<close> on \<open>str\<close> patterns, restricted to the code points
  below 256: \<open>\w\<close> is an alphanumeric character or the underscore, \<open>\s\<close> is what
  \<open>str.isspace\<close> accepts, \<open>\d\<close> is a decimal digit, and \<open>.\<close> is anything but a
  newline. Every letter of the patterns is ASCII, so ignoring case compares the ASCII
  lower-case forms.
\<close>

definition code_point :: "char \<Rightarrow> nat" where
  "code_point c = of_char c"

definition lower :: "char \<Rightarrow> char" where
  "lower c = (if 65 \<le> code_point c \<and> code_point c \<le> 90 then char_of (code_point c + 32) else c)"

definition is_digit :: "char \<Rightarrow> bool" where
  "is_digit c \<longleftrightarrow> 48 \<le> code_point c \<and> code_point c \<le> 57"

definition is_alnum_latin1 :: "char \<Rightarrow> bool" where
  "is_alnum_latin1 c \<longleftrightarrow>
     (if code_point c < 192 then
        code_point c = 170 \<or> code_point c = 178 \<or> code_point c = 179 \<or> code_point c = 181
      \<or> code_point c = 185 \<or> code_point c = 186
      \<or> (188 \<le> code_point c \<and> code_point c \<le> 190)
      else code_point c \<noteq> 215 \<and> code_point c \<noteq> 247)"

definition is_word :: "char \<Rightarrow> bool" where
  "is_word c \<longleftrightarrow>
     (if code_point c < 128 then
        is_digit c \<or> (65 \<le> code_point c \<and> code_point c \<le> 90)
      \<or> (97 \<le> code_point c \<and> code_point c \<le> 122) \<or> code_point c = 95
      else is_alnum_latin1 c)"

definition is_space :: "char \<Rightarrow> bool" where
  "is_space c \<longleftrightarrow>
     (if code_point c < 128 then
        (9 \<le> code_point c \<and> code_point c \<le> 13) \<or> (28 \<le> code_point c \<and> code_point c \<le> 32)
      else code_point c = 133 \<or> code_point c = 160)"

fun cls_match :: "char_class \<Rightarrow> char \<Rightarrow> bool" where
  "cls_match (Lit a) c = (lower c = lower a)"
| "cls_match Digit c = is_digit c"
| "cls_match NonSpace c = (\<not> is_space c)"
| "cls_match AnyChar c = (code_point c \<noteq> 10)"

text \<open>
  A matcher state is the character before the current position (none at the start of the
  text) and the rest of the text; \<open>rmatch\<close> lists the states in which a match of the
  pattern starting in the given state can end. \<open>re_search\<close> is \<open>Pattern.search\<close>
  read as a boolean: some position of the text starts a match.
\<close>

fun is_word_at :: "char option \<Rightarrow> bool" where
  "is_word_at None = False"
| "is_word_at (Some c) = is_word c"

fun next_char :: "string \<Rightarrow> char option" where
  "next_char [] = None"
| "next_char (c # cs) = Some c"

fun star_match :: "char_class \<Rightarrow> char option \<Rightarrow> string \<Rightarrow> (char option \<times> string) list" where
  "star_match k p [] = [(p, [])]"
| "star_match k p (c # cs) =
     (p, c # cs) # (if cls_match k c then star_match k (Some c) cs else [])"

fun rmatch :: "regex \<Rightarrow> char option \<times> string \<Rightarrow> (char option \<times> string) list" where
  "rmatch (Atom k) (p, s) =
     (case s of [] \<Rightarrow> [] | c # cs \<Rightarrow> if cls_match k c then [(Some c, cs)] else [])"
| "rmatch (Seq a b) st = concat (map (rmatch b) (rmatch a st))"
| "rmatch (Alt a b) st = rmatch a st @ rmatch b st"
| "rmatch (Star k) (p, s) = star_match k p s"
| "rmatch (Plus k) (p, s) =
     (case s of [] \<Rightarrow> [] | c # cs \<Rightarrow> if cls_match k c then star_match k (Some c) cs else [])"
| "rmatch WordBoundary (p, s) =
     (if is_word_at p \<noteq> is_word_at (next_char s) then [(p, s)] else [])"
| "rmatch Epsilon st = [st]"

fun search_from :: "regex \<Rightarrow> char option \<Rightarrow> string \<Rightarrow> bool" where
  "search_from r p [] = (rmatch r (p, []) \<noteq> [])"
| "search_from r p (c # cs) = (if rmatch r (p, c # cs) \<noteq> [] then True else search_from r (Some c) cs)"

definition re_search :: "regex \<Rightarrow> string \<Rightarrow> bool" where
  "re_search r s = search_from r None s"

text \<open>Builders for a literal word, a sequence and an alternation.\<close>

fun lit :: "string \<Rightarrow> regex" where
  "lit [] = Epsilon"
| "lit [c] = Atom (Lit c)"
| "lit (c # cs) = Seq (Atom (Lit c)) (lit cs)"

fun seqs :: "regex list \<Rightarrow> regex" where
  "seqs [] = Epsilon"
| "seqs [r] = r"
| "seqs (r # rs) = Seq r (seqs rs)"

fun alts :: "regex list \<Rightarrow> regex" where
  "alts [] = Epsilon"
| "alts [r] = r"
| "alts (r # rs) = Alt r (alts rs)"

definition URGENCY_PATTERN :: regex where
  "URGENCY_PATTERN =
     seqs [WordBoundary,
           alts [lit ''urgent'', lit ''immediately'', lit ''right now'',
                 seqs [lit ''within '', Plus Digit, lit '' '',
                       alts [lit ''minute'', lit ''minutes'', lit ''hour'', lit ''hours'']],
                 lit ''final warning'', lit ''last warning''],
           WordBoundary]"

definition AUTHORITY_PATTERN :: regex where
  "AUTHORITY_PATTERN =
     seqs [WordBoundary,
           alts [lit ''bank'', lit ''sbi'', lit ''security team'', lit ''fraud team'',
                 lit ''customs'', lit ''police'', lit ''rbi'', lit ''compliance'', lit ''official''],
           WordBoundary]"

definition REWARD_PATTERN :: regex where
  "REWARD_PATTERN =
     seqs [WordBoundary,
           alts [lit ''prize'', lit ''lottery'', lit ''reward'', lit ''cashback'', lit ''gift'',
                 lit ''bonus'', lit ''offer''],
           WordBoundary]"

definition VERIFY_PATTERN :: regex where
  "VERIFY_PATTERN =
     seqs [WordBoundary,
           alts [lit ''verify'', lit ''verification'', lit ''otp'', lit ''one time password'',
                 lit ''pin'', lit ''upi pin'', lit ''cvv'', lit ''account number''],
           WordBoundary]"

definition LINK_PRESSURE_PATTERN :: regex where
  "LINK_PRESSURE_PATTERN =
     alts [seqs [WordBoundary, alts [lit ''click'', lit ''open'', lit ''tap'', lit ''visit''],
                 WordBoundary, Star AnyChar, WordBoundary,
                 alts [lit ''link'', lit ''url'', lit ''site'', lit ''website''], WordBoundary],
           seqs [WordBoundary, lit ''http'', alts [lit ''s'', Epsilon], lit ''://'', Plus NonSpace],
           seqs [lit ''www.'', Plus NonSpace]]"

definition ALT_CHANNEL_PATTERN :: regex where
  "ALT_CHANNEL_PATTERN =
     seqs [WordBoundary,
           alts [lit ''call'', lit ''whatsapp'', lit ''telegram'', lit ''email'', lit ''contact''],
           WordBoundary]"

subsection \<open>Results and float arithmetic\<close>

text \<open>
  A Python float is a finite value, an infinity or NaN. Finite values are rationals and the
  arithmetic on them is exact. \<open>py_min a b\<close> and \<open>py_max a b\<close> are the two-argument
  \<open>min(a, b)\<close> and \<open>max(a, b)\<close>: the first argument is returned unless the second
  is strictly smaller (larger), so a NaN in second place is dropped.
\<close>

datatype pyfloat = Fin rat | PosInf | NegInf | NaN

fun py_lt :: "pyfloat \<Rightarrow> pyfloat \<Rightarrow> bool" where
  "py_lt (Fin a) (Fin b) = (a < b)"
| "py_lt (Fin a) PosInf = True"
| "py_lt NegInf (Fin b) = True"
| "py_lt NegInf PosInf = True"
| "py_lt _ _ = False"

definition py_min :: "pyfloat \<Rightarrow> pyfloat \<Rightarrow> pyfloat" where
  "py_min a b = (if py_lt b a then b else a)"

definition py_max :: "pyfloat \<Rightarrow> pyfloat \<Rightarrow> pyfloat" where
  "py_max a b = (if py_lt a b then b else a)"

fun py_add :: "pyfloat \<Rightarrow> pyfloat \<Rightarrow> pyfloat" where
  "py_add (Fin a) (Fin b) = Fin (a + b)"
| "py_add NaN _ = NaN"
| "py_add _ NaN = NaN"
| "py_add PosInf NegInf = NaN"
| "py_add NegInf PosInf = NaN"
| "py_add PosInf _ = PosInf"
| "py_add NegInf _ = NegInf"
| "py_add (Fin a) b = b"

fun py_scale :: "pyfloat \<Rightarrow> rat \<Rightarrow> pyfloat" where
  "py_scale (Fin a) k = Fin (a * k)"
| "py_scale NaN k = NaN"
| "py_scale PosInf k = (if k > 0 then PosInf else if k < 0 then NegInf else NaN)"
| "py_scale NegInf k = (if k > 0 then NegInf else if k < 0 then PosInf else NaN)"

text \<open>
  \<open>round(x, 2)\<close> rounds to two decimals, ties to the even neighbour; infinities and NaN
  are returned as they are.
\<close>

definition round_half_even :: "rat \<Rightarrow> int" where
  "round_half_even q =
     (let f = \<lfloor>q\<rfloor>; d = q - of_int f
      in if d < 1 / 2 then f else if d > 1 / 2 then f + 1 else if even f then f else f + 1)"

definition round2 :: "rat \<Rightarrow> rat" where
  "round2 q = of_int (round_half_even (q * 100)) / 100"

fun py_round2 :: "pyfloat \<Rightarrow> pyfloat" where
  "py_round2 (Fin q) = Fin (round2 q)"
| "py_round2 x = x"

record BehavioralAnalysisResult =
  score :: pyfloat
  confidence :: pyfloat
  indicators :: "string list"
  category_hint :: "string option"

text \<open>\<open>sorted(set(xs))\<close>: duplicates removed, strings in code point order.\<close>

definition py_sorted_set :: "string list \<Rightarrow> string list" where
  "py_sorted_set xs = sort (remdups xs)"

subsection \<open>The rule evaluator\<close>

text \<open>
  One \<open>if PATTERN.search(text)\<close> block of \<open>_rule_based_analysis\<close>: the pair is the
  running score and the list of indicators.
\<close>

definition add_family :: "bool \<Rightarrow> rat \<Rightarrow> string \<Rightarrow> rat \<times> string list \<Rightarrow> rat \<times> string list" where
  "add_family found weight tag acc =
     (if found then (fst acc + weight, snd acc @ [tag]) else acc)"

definition rule_based_analysis :: "string \<Rightarrow> BehavioralAnalysisResult" where
  "rule_based_analysis text =
     (if text = [] then \<lparr>score = Fin 0, confidence = Fin 0, indicators = [], category_hint = None\<rparr>
      else
        let acc0 = (0, []);
            acc1 = add_family (re_search URGENCY_PATTERN text) 2 ''urgency'' acc0;
            acc2 = add_family (re_search AUTHORITY_PATTERN text) 2 ''authority_impersonation'' acc1;
            acc3 = add_family (re_search REWARD_PATTERN text) (3 / 2) ''reward_bait'' acc2;
            acc4 = add_family (re_search VERIFY_PATTERN text) (5 / 2)
                     ''verification_or_secret_request'' acc3;
            acc5 = add_family (re_search LINK_PRESSURE_PATTERN text) 2
                     ''external_link_pressure'' acc4;
            acc6 = add_family (re_search ALT_CHANNEL_PATTERN text) 1 ''alternate_channel_push'' acc5;
            score_sum = fst acc6;
            found = snd acc6;
            category =
              (if ''reward_bait'' \<in> set found then Some ''LOTTERY_SCAM''
               else if ''external_link_pressure'' \<in> set found then Some ''PHISHING''
               else if ''verification_or_secret_request'' \<in> set found
                       \<and> ''authority_impersonation'' \<in> set found then Some ''BANK_FRAUD''
               else None);
            conf = min 1 (score_sum / 8)
        in \<lparr>score = Fin (round2 (min 10 score_sum)),
            confidence = Fin (round2 conf),
            indicators = py_sorted_set found,
            category_hint = category\<rparr>)"

subsection \<open>The judgment evaluator\<close>

text \<open>
  The values a JSON payload can hold, with Python's truth test. The JSON extractor, the
  parser behind \<open>float\<close> of a string and \<open>str\<close> of a value that is not a string
  belong to the Python runtime and to \<open>agent.llm_clients\<close>; they are parameters of the
  model. \<open>float\<close> raises \<open>TypeError\<close> on \<open>None\<close>, a list or a dictionary,
  \<open>ValueError\<close> on a string that is no number and \<open>OverflowError\<close> on an integer
  beyond the float range.
\<close>

datatype pyval =
    PNone
  | PBool bool
  | PInt int
  | PFloat pyfloat
  | PStr string
  | PList "pyval list"
  | PDict "(string \<times> pyval) list"

fun truthy :: "pyval \<Rightarrow> bool" where
  "truthy PNone = False"
| "truthy (PBool b) = b"
| "truthy (PInt i) = (i \<noteq> 0)"
| "truthy (PFloat f) = (f \<noteq> Fin 0)"
| "truthy (PStr s) = (s \<noteq> [])"
| "truthy (PList xs) = (xs \<noteq> [])"
| "truthy (PDict kvs) = (kvs \<noteq> [])"

record py_builtins =
  extract_json_object :: "string \<Rightarrow> pyval"
  float_of_string :: "string \<Rightarrow> pyfloat option"
  repr :: "pyval \<Rightarrow> string"

fun py_float :: "py_builtins \<Rightarrow> pyval \<Rightarrow> py_error + pyfloat" where
  "py_float env PNone = Inl TypeError"
| "py_float env (PBool b) = Inr (Fin (if b then 1 else 0))"
| "py_float env (PInt i) =
     (if \<bar>i\<bar> \<ge> 2 ^ 1024 - 2 ^ 970 then Inl OverflowError else Inr (Fin (of_int i)))"
| "py_float env (PFloat f) = Inr f"
| "py_float env (PStr s) =
     (case float_of_string env s of None \<Rightarrow> Inl ValueError | Some f \<Rightarrow> Inr f)"
| "py_float env (PList xs) = Inl TypeError"
| "py_float env (PDict kvs) = Inl TypeError"

fun py_str :: "py_builtins \<Rightarrow> pyval \<Rightarrow> string" where
  "py_str env (PStr s) = s"
| "py_str env v = repr env v"

text \<open>\<open>str.strip()\<close> and \<open>dict.get(key, default)\<close>.\<close>

definition py_strip :: "string \<Rightarrow> string" where
  "py_strip s = rev (dropWhile is_space (rev (dropWhile is_space s)))"

definition dict_get :: "(string \<times> pyval) list \<Rightarrow> string \<Rightarrow> pyval \<Rightarrow> pyval" where
  "dict_get kvs k dflt = (case map_of kvs k of None \<Rightarrow> dflt | Some v \<Rightarrow> v)"

text \<open>
  A provider client has an optional key and a chat call that returns the reply text or
  nothing. \<open>has_key\<close> is the test \<open>client and client.api_key\<close>.
\<close>

record llm_client =
  api_key :: "string option"
  chat :: "string \<Rightarrow> string option"

definition has_key :: "llm_client option \<Rightarrow> bool" where
  "has_key c = (case c of None \<Rightarrow> False
                | Some cl \<Rightarrow> (case api_key cl of None \<Rightarrow> False | Some k \<Rightarrow> k \<noteq> []))"

definition client_chat :: "llm_client option \<Rightarrow> string \<Rightarrow> string option" where
  "client_chat c text = (case c of None \<Rightarrow> None | Some cl \<Rightarrow> chat cl text)"

definition str_truthy :: "string option \<Rightarrow> bool" where
  "str_truthy r = (case r of None \<Rightarrow> False | Some s \<Rightarrow> s \<noteq> [])"

text \<open>
  The part of \<open>_llm_analysis\<close> after the payload is known to be a dictionary. The
  \<open>except\<close> clause catches \<open>TypeError\<close> and \<open>ValueError\<close> only, so an
  \<open>OverflowError\<close> leaves the function.
\<close>

definition llm_result_of_payload ::
  "py_builtins \<Rightarrow> (string \<times> pyval) list \<Rightarrow> py_error + BehavioralAnalysisResult option" where
  "llm_result_of_payload env payload =
     (case py_float env (dict_get payload ''riskScore'' (PFloat (Fin 0))) of
        Inl TypeError \<Rightarrow> Inr None
      | Inl ValueError \<Rightarrow> Inr None
      | Inl e \<Rightarrow> Inl e
      | Inr score_raw \<Rightarrow>
         (case py_float env (dict_get payload ''confidence'' (PFloat (Fin 0))) of
            Inl TypeError \<Rightarrow> Inr None
          | Inl ValueError \<Rightarrow> Inr None
          | Inl e \<Rightarrow> Inl e
          | Inr confidence_raw \<Rightarrow>
             (let got = dict_get payload ''indicators'' PNone;
                  indicators_raw = (if truthy got then got else PList []);
                  found = (case indicators_raw of
                             PList xs \<Rightarrow> filter (\<lambda>s. s \<noteq> [])
                                           (map (\<lambda>i. py_strip (py_str env i)) xs)
                           | _ \<Rightarrow> []);
                  hint_raw = dict_get payload ''categoryHint'' PNone;
                  hint = (if truthy hint_raw then Some (py_strip (py_str env hint_raw)) else None)
              in Inr (Some \<lparr>score = py_round2 (py_max (Fin 0) (py_min (Fin 10) score_raw)),
                            confidence = py_round2 (py_max (Fin 0) (py_min (Fin 1) confidence_raw)),
                            indicators = py_sorted_set found,
                            category_hint = hint\<rparr>))))"

definition llm_analysis ::
  "py_builtins \<Rightarrow> string \<Rightarrow> llm_client option \<Rightarrow> llm_client option
     \<Rightarrow> py_error + BehavioralAnalysisResult option" where
  "llm_analysis env text openai gemini =
     (if text = [] then Inr None
      else if \<not> (has_key openai \<or> has_key gemini) then Inr None
      else
        let raw0 = None;
            raw1 = (if has_key openai then client_chat openai text else raw0);
            raw2 = (if \<not> str_truthy raw1 \<and> has_key gemini then client_chat gemini text else raw1)
        in case raw2 of
             None \<Rightarrow> Inr None
           | Some raw \<Rightarrow>
              (if raw = [] then Inr None
               else case extract_json_object env raw of
                      PDict payload \<Rightarrow> llm_result_of_payload env payload
                    | _ \<Rightarrow> Inr None))"

subsection \<open>Fusion\<close>

text \<open>
  \<open>hint_truthy\<close> is the truth test of \<open>llm_result.category_hint or ...\<close>: a hint that
  is \<open>None\<close> or the empty string is passed over.
\<close>

definition hint_truthy :: "string option \<Rightarrow> bool" where
  "hint_truthy h = (case h of None \<Rightarrow> False | Some s \<Rightarrow> s \<noteq> [])"

definition analyze ::
  "py_builtins \<Rightarrow> string \<Rightarrow> llm_client option \<Rightarrow> llm_client option
     \<Rightarrow> py_error + BehavioralAnalysisResult" where
  "analyze env text openai gemini =
     (let rule_result = rule_based_analysis text in
      case llm_analysis env text openai gemini of
        Inl e \<Rightarrow> Inl e
      | Inr None \<Rightarrow> Inr rule_result
      | Inr (Some llm_result) \<Rightarrow>
         (let combined_score = py_add (py_scale (score rule_result) (6 / 10))
                                      (py_scale (score llm_result) (4 / 10));
              combined_confidence = py_max (confidence rule_result) (confidence llm_result);
              combined_indicators = py_sorted_set (indicators rule_result @ indicators llm_result);
              hint = (if hint_truthy (category_hint llm_result) then category_hint llm_result
                      else category_hint rule_result)
          in Inr \<lparr>score = py_round2 (py_min (Fin 10) combined_score),
                  confidence = py_round2 (py_min (Fin 1) combined_confidence),
                  indicators = combined_indicators,
                  category_hint = hint\<rparr>))"

subsection \<open>Notions of the specification\<close>


definition VOCABULARY :: "string set" where
  "VOCABULARY = {''urgency'', ''authority_impersonation'', ''reward_bait'',
                 ''verification_or_secret_request'', ''external_link_pressure'',
                 ''alternate_channel_push''}"

definition within_ranges :: "BehavioralAnalysisResult \<Rightarrow> bool" where
  "within_ranges r \<longleftrightarrow>
     (\<exists>s c. score r = Fin s \<and> 0 \<le> s \<and> s \<le> 10 \<and> confidence r = Fin c \<and> 0 \<le> c \<and> c \<le> 1)
   \<and> distinct (indicators r)"



subsection \<open>Example providers\<close>

text \<open>
  A credentialed client whose reply the extractor turns into a given payload, and three
  payloads: one with tags and a category from the documented vocabularies, one whose
  category is a single blank, and one with a tag outside the six.
\<close>

definition example_builtins :: "pyval \<Rightarrow> py_builtins" where
  "example_builtins payload =
     \<lparr>extract_json_object = (\<lambda>raw. payload), float_of_string = (\<lambda>s. None),
      repr = (\<lambda>v. [])\<rparr>"

definition example_client :: llm_client where
  "example_client = \<lparr>api_key = Some ''key'', chat = (\<lambda>prompt. Some ''{}'')\<rparr>"

definition listed_payload :: pyval where
  "listed_payload =
     PDict [(''riskScore'', PInt 7), (''confidence'', PFloat (Fin (9 / 10))),
            (''indicators'', PList [PStr ''urgency'', PStr ''reward_bait'']),
            (''categoryHint'', PStr ''UPI_FRAUD'')]"


definition unlisted_indicator_payload :: pyval where
  "unlisted_indicator_payload =
     PDict [(''riskScore'', PInt 5), (''confidence'', PFloat (Fin (1 / 2))),
            (''indicators'', PList [PStr ''foo''])]"

section \<open>Properties of the strategy classifier\<close>

lemma tier_position_simps:
  "tier_position STRATEGY_NEUTRAL = Some 0"
  "tier_position STRATEGY_SUSPICIOUS = Some 1"
  "tier_position STRATEGY_EXTRACTION_MODE = Some 2"
  "tier_position STRATEGY_HARVEST_MODE = Some 3"
  "tier_position STRATEGY_HIGH_CONFIDENCE = Some 4"
  by (simp_all add: tier_position_def STRATEGY_NEUTRAL_def STRATEGY_SUSPICIOUS_def
      STRATEGY_EXTRACTION_MODE_def STRATEGY_HARVEST_MODE_def STRATEGY_HIGH_CONFIDENCE_def)

text \<open>
  C7. With the detected flag, the actionable count and the agent turns held fixed (given
  explicitly or read from the same session record), raising the score never moves the
  returned tier backward in the order Neutral, Suspicious, Extraction Mode, Intelligence
  Harvest Mode, High Confidence Scam. The score is either passed as the
  \<open>rolling_score\<close> argument or read from the record.
\<close>

theorem infer_strategy_state_mono:
  assumes "s1 \<le> s2"
  shows "tier_le (infer_strategy_state st (Some s1) d a t)
                 (infer_strategy_state st (Some s2) d a t)
       \<and> tier_le (infer_strategy_state (st\<lparr>rolling_scam_score := s1\<rparr>) None d a t)
                 (infer_strategy_state (st\<lparr>rolling_scam_score := s2\<rparr>) None d a t)"
  using assms
  by (auto simp: infer_strategy_state_def tier_le_def tier_position_simps Let_def
           split: option.splits)

theorem infer_strategy_state_mono_witness:
  "(5::rat) \<le> 10
   \<and> tier_le (infer_strategy_state
                (\<lparr>finalized = False, scam_detected = False, first_scam_timestamp = None,
                  scammer_messages = 0, agent_turns = 0, rolling_scam_score = 0,
                  intel = \<lparr>actionable_category_count = 0, has_high_value = False,
                            upi_ids = [], crypto_wallets = []\<rparr>\<rparr>)
                (Some 5) None None None)
             (infer_strategy_state
                (\<lparr>finalized = False, scam_detected = False, first_scam_timestamp = None,
                  scammer_messages = 0, agent_turns = 0, rolling_scam_score = 0,
                  intel = \<lparr>actionable_category_count = 0, has_high_value = False,
                            upi_ids = [], crypto_wallets = []\<rparr>\<rparr>)
                (Some 10) None None None)"
proof -
  have h: "(5::rat) \<le> 10" by simp
  from infer_strategy_state_mono [OF h] show ?thesis using h by blast
qed

section \<open>Properties of the engagement finalizer\<close>

text \<open>
  C8. A session with \<open>scam_detected\<close> true, \<open>finalized\<close> false and at least 12 agent
  turns is finalized, whatever the clock, the first-scam timestamp, the intelligence
  record and the message counts are.
\<close>

theorem should_finalize_hard_cap:
  assumes "scam_detected state" and "\<not> finalized state" and "agent_turns state \<ge> 12"
  shows "should_finalize now state"
  using assms by (simp add: should_finalize_def Let_def)

theorem should_finalize_hard_cap_witness:
  "should_finalize 0
     \<lparr>finalized = False, scam_detected = True, first_scam_timestamp = None,
      scammer_messages = 0, agent_turns = 12, rolling_scam_score = 0,
      intel = \<lparr>actionable_category_count = 0, has_high_value = False,
                upi_ids = [], crypto_wallets = []\<rparr>\<rparr>"
  by (rule should_finalize_hard_cap) simp_all

section \<open>Properties of the call admission gate\<close>

lemma prune_loop_dropWhile: "prune_loop q c = dropWhile (\<lambda>t. t < c) q"
  by (induction q) auto

lemma dropWhile_sorted_filter:
  "sorted q \<Longrightarrow> dropWhile (\<lambda>t. t < c) q = filter (\<lambda>t. (c::rat) \<le> t) q"
  by (induction q) (auto simp: not_less intro!: filter_True[symmetric] )

lemma prune_sorted: "sorted q \<Longrightarrow> prune q now = filter (\<lambda>t. now - 60 \<le> t) q"
  by (simp add: prune_def WINDOW_SECONDS_def prune_loop_dropWhile dropWhile_sorted_filter)

lemma wf_init: "gate_wf (LLMCallGate_init e a b c d n)"
  by (auto simp: gate_wf_def LLMCallGate_init_def split: if_splits)

lemma lookup_Some [simp]: "d k = Some v \<Longrightarrow> lookup d k = Inr v"
  by (simp add: lookup_def)

lemma bind_e_Inr [simp]: "bind_e (Inr v) f = f v"
  by (simp add: bind_e_def)

lemma bind_e_Inl [simp]: "bind_e (Inl e) f = Inl e"
  by (simp add: bind_e_def)

lemma wf_calls:
  assumes "gate_wf g" "k \<in> {''global'', ''reply'', ''behavior'', ''extraction''}"
  shows "gate_calls g k = Some (queue_of g k)"
proof -
  from assms have "k \<in> dom (gate_calls g)" by (simp add: gate_wf_def)
  then show ?thesis by (auto simp: queue_of_def)
qed

lemma wf_dropped:
  assumes "gate_wf g" "k \<in> {''reply'', ''behavior'', ''extraction''}"
  shows "\<exists>d. gate_dropped g k = Some d"
proof -
  from assms have "k \<in> dom (gate_dropped g)" by (simp add: gate_wf_def)
  then show ?thesis by auto
qed

lemma wf_limits:
  assumes "gate_wf g" "k \<in> {''reply'', ''behavior'', ''extraction''}"
  shows "\<exists>d. gate_stage_limits g k = Some d"
proof -
  from assms have "k \<in> dom (gate_stage_limits g)" by (simp add: gate_wf_def)
  then show ?thesis by auto
qed

lemma prune_at_Some [simp]: "calls k = Some q \<Longrightarrow> prune_at calls k now = Inr (calls(k \<mapsto> prune q now))"
  by (simp add: prune_at_def)

lemma append_at_Some [simp]: "calls k = Some q \<Longrightarrow> append_at calls k now = Inr (calls(k \<mapsto> q @ [now]))"
  by (simp add: append_at_def)

lemma increment_at_Some [simp]: "cs k = Some d \<Longrightarrow> increment_at cs k = Inr (cs(k \<mapsto> d + 1))"
  by (simp add: increment_at_def)

lemma allow_wf:
  assumes wf: "gate_wf g" and st: "stage \<in> {''reply'', ''behavior'', ''extraction''}"
    and en: "gate_enabled g"
    and sa: "stage = ''behavior'' \<longrightarrow> behavior_sampling_allows g (max 0 i)"
    and lim: "gate_stage_limits g stage = Some sl" and dr: "gate_dropped g stage = Some d"
  shows "allow g stage i now =
     (if int (length (prune (queue_of g ''global'') now)) \<ge> gate_global_limit g
         \<or> int (length (prune (queue_of g stage) now)) \<ge> sl
      then Inr (False, g\<lparr>gate_calls := (gate_calls g)(''global'' \<mapsto> prune (queue_of g ''global'') now,
                                              stage \<mapsto> prune (queue_of g stage) now),
                         gate_dropped := (gate_dropped g)(stage \<mapsto> d + 1)\<rparr>)
      else Inr (True, g\<lparr>gate_calls := (gate_calls g)(''global'' \<mapsto> prune (queue_of g ''global'') now @ [now],
                                              stage \<mapsto> prune (queue_of g stage) now @ [now])\<rparr>))"
proof -
  have ne: "stage \<noteq> ''global''" using st by auto
  have g: "gate_calls g ''global'' = Some (queue_of g ''global'')" using wf by (simp add: wf_calls)
  have s: "gate_calls g stage = Some (queue_of g stage)" using wf st by (auto simp add: wf_calls)
  have dm: "stage \<in> dom (gate_stage_limits g)" using lim by auto
  have nb: "\<not> (stage = ''behavior'' \<and> \<not> behavior_sampling_allows g (max 0 i))"
    using sa by blast
  show ?thesis
    unfolding allow_def
    apply (simp only: dm nb en if_False if_True not_True_eq_False not_not simp_thms)
    apply (simp add: g s ne ne[symmetric] lim dr lookup_def prune_at_def append_at_def increment_at_def)
    done
qed

lemma in_window_prune:
  assumes "sorted q" "now - 60 \<le> c"
  shows "in_window c (prune q now) = in_window c q"
proof -
  have "filter (\<lambda>t. c \<le> t) (filter (\<lambda>t. now - 60 \<le> t) q) = filter (\<lambda>t. c \<le> t) q"
    using assms(2) by (induction q) auto
  then show ?thesis using assms(1) by (simp add: in_window_def prune_sorted)
qed

lemma sorted_prune: "sorted q \<Longrightarrow> sorted (prune q now)"
  by (simp add: prune_def prune_loop_dropWhile sorted_dropWhile)

lemma set_prune: "sorted q \<Longrightarrow> set (prune q now) \<subseteq> set q"
  by (auto simp add: prune_sorted)

lemma in_window_snoc: "in_window c (q @ [t]) = in_window c q @ (if c \<le> t then [t] else [])"
  by (simp add: in_window_def)

lemma sorted_snoc_le: "sorted q \<Longrightarrow> (\<forall>t \<in> set q. t \<le> (x::rat)) \<Longrightarrow> sorted (q @ [x])"
  by (simp add: sorted_append)

lemma gate_inv_mono: "gate_inv g T \<Longrightarrow> T \<le> T' \<Longrightarrow> gate_inv g T'"
  unfolding gate_inv_def
  apply (intro conjI allI impI)
     apply simp
    apply simp
   apply (meson order_trans)
  apply (subgoal_tac "T - 60 \<le> c")
   apply simp
  apply linarith
  done

lemma queue_of_upd:
  "queue_of (g\<lparr>gate_calls := cs\<rparr>) k = (case cs k of None \<Rightarrow> [] | Some q \<Rightarrow> q)"
  by (simp add: queue_of_def)

lemma queue_of_dropped [simp]:
  "queue_of (g\<lparr>gate_dropped := ds\<rparr>) k = queue_of g k"
  by (simp add: queue_of_def)

lemma qo_upd2:
  "queue_of (g\<lparr>gate_calls := (gate_calls g)(a \<mapsto> x, b \<mapsto> y)\<rparr>) k =
     (if k = b then y else if k = a then x else queue_of g k)"
  by (simp add: queue_of_def)

lemma wf_upd2:
  assumes "gate_wf g" "a \<in> dom (gate_calls g)" "b \<in> dom (gate_calls g)"
  shows "gate_wf (g\<lparr>gate_calls := (gate_calls g)(a \<mapsto> x, b \<mapsto> y)\<rparr>)"
  using assms by (simp add: gate_wf_def insert_absorb)

lemma wf_upd_dropped:
  assumes "gate_wf g" "a \<in> dom (gate_dropped g)"
  shows "gate_wf (g\<lparr>gate_dropped := (gate_dropped g)(a \<mapsto> x)\<rparr>)"
  using assms by (simp add: gate_wf_def insert_absorb)

lemma gate_inv_dropped:
  "gate_inv g T \<Longrightarrow> a \<in> dom (gate_dropped g) \<Longrightarrow>
   gate_inv (g\<lparr>gate_dropped := (gate_dropped g)(a \<mapsto> x)\<rparr>) T"
  by (simp add: gate_inv_def wf_upd_dropped)

lemma gate_inv_pruned:
  assumes inv: "gate_inv g T" and le: "T \<le> now"
    and st: "stage \<in> {''reply'', ''behavior'', ''extraction''}"
  shows "gate_inv (g\<lparr>gate_calls := (gate_calls g)(''global'' \<mapsto> prune (queue_of g ''global'') now,
                                              stage \<mapsto> prune (queue_of g stage) now)\<rparr>) now"
proof -
  let ?g = "g\<lparr>gate_calls := (gate_calls g)(''global'' \<mapsto> prune (queue_of g ''global'') now,
                                              stage \<mapsto> prune (queue_of g stage) now)\<rparr>"
  from inv have wf: "gate_wf g"
    and so: "\<And>k. sorted (queue_of g k)"
    and bd: "\<And>k t. t \<in> set (queue_of g k) \<Longrightarrow> t \<le> T"
    and cnt: "\<And>c. T - 60 \<le> c \<Longrightarrow>
          length (in_window c (queue_of g ''global'')) =
            length (in_window c (queue_of g ''reply''))
          + length (in_window c (queue_of g ''behavior''))
          + length (in_window c (queue_of g ''extraction''))"
    by (simp_all add: gate_inv_def)
  have d1: "''global'' \<in> dom (gate_calls g)" using wf by (simp add: gate_wf_def)
  have d2: "stage \<in> dom (gate_calls g)" using wf st by (simp add: gate_wf_def)
  have wf': "gate_wf ?g" by (rule wf_upd2 [OF wf d1 d2])
  have so': "sorted (queue_of ?g k)" for k
    by (simp add: qo_upd2 so sorted_prune)
  have bd': "t \<le> now" if "t \<in> set (queue_of ?g k)" for k t
  proof -
    have "t \<in> set (queue_of g k) \<or> t \<in> set (queue_of g ''global'') \<or> t \<in> set (queue_of g stage)"
      using that set_prune [OF so, of "''global''" now] set_prune [OF so, of stage now]
      by (auto simp add: qo_upd2 split: if_splits)
    then have "t \<le> T" using bd by metis
    then show ?thesis using le by simp
  qed
  have cnt': "length (in_window c (queue_of ?g ''global'')) =
            length (in_window c (queue_of ?g ''reply''))
          + length (in_window c (queue_of ?g ''behavior''))
          + length (in_window c (queue_of ?g ''extraction''))" if c: "now - 60 \<le> c" for c
  proof -
    have c': "T - 60 \<le> c" using c le by simp
    have p: "in_window c (prune (queue_of g k) now) = in_window c (queue_of g k)" for k
      by (rule in_window_prune [OF so c])
    from st consider "stage = ''reply''" | "stage = ''behavior''" | "stage = ''extraction''"
      by auto
    then show ?thesis
      by cases (simp_all add: qo_upd2 p cnt [OF c'])
  qed
  show ?thesis
    unfolding gate_inv_def using wf' so' bd' cnt' by simp
qed

lemma gate_inv_appended:
  assumes inv: "gate_inv g now"
    and st: "stage \<in> {''reply'', ''behavior'', ''extraction''}"
  shows "gate_inv (g\<lparr>gate_calls := (gate_calls g)(''global'' \<mapsto> queue_of g ''global'' @ [now],
                                              stage \<mapsto> queue_of g stage @ [now])\<rparr>) now"
proof -
  let ?g = "g\<lparr>gate_calls := (gate_calls g)(''global'' \<mapsto> queue_of g ''global'' @ [now],
                                              stage \<mapsto> queue_of g stage @ [now])\<rparr>"
  from inv have wf: "gate_wf g"
    and so: "\<And>k. sorted (queue_of g k)"
    and bd: "\<And>k t. t \<in> set (queue_of g k) \<Longrightarrow> t \<le> now"
    and cnt: "\<And>c. now - 60 \<le> c \<Longrightarrow>
          length (in_window c (queue_of g ''global'')) =
            length (in_window c (queue_of g ''reply''))
          + length (in_window c (queue_of g ''behavior''))
          + length (in_window c (queue_of g ''extraction''))"
    by (simp_all add: gate_inv_def)
  have d1: "''global'' \<in> dom (gate_calls g)" using wf by (simp add: gate_wf_def)
  have d2: "stage \<in> dom (gate_calls g)" using wf st by (simp add: gate_wf_def)
  have wf': "gate_wf ?g" by (rule wf_upd2 [OF wf d1 d2])
  have sn: "sorted (queue_of g k @ [now])" for k
    by (rule sorted_snoc_le) (simp_all add: so bd)
  have so': "sorted (queue_of ?g k)" for k
    by (simp add: qo_upd2 so sn)
  have bd': "t \<le> now" if "t \<in> set (queue_of ?g k)" for k t
  proof -
    have "t = now \<or> t \<in> set (queue_of g k) \<or> t \<in> set (queue_of g ''global'')
          \<or> t \<in> set (queue_of g stage)"
      using that by (auto simp add: qo_upd2 split: if_splits)
    then show ?thesis using bd by auto
  qed
  have cnt': "length (in_window c (queue_of ?g ''global'')) =
            length (in_window c (queue_of ?g ''reply''))
          + length (in_window c (queue_of ?g ''behavior''))
          + length (in_window c (queue_of ?g ''extraction''))" if c: "now - 60 \<le> c" for c
  proof -
    from st consider "stage = ''reply''" | "stage = ''behavior''" | "stage = ''extraction''"
      by auto
    then show ?thesis
      by cases (simp_all add: qo_upd2 in_window_snoc cnt [OF c])
  qed
  show ?thesis
    unfolding gate_inv_def using wf' so' bd' cnt' by simp
qed

lemma gate_config_eq [simp]:
  "gate_config a = gate_config b \<longleftrightarrow>
     gate_enabled a = gate_enabled b \<and> gate_global_limit a = gate_global_limit b
   \<and> gate_stage_limits a = gate_stage_limits b
   \<and> gate_behavior_sample_n a = gate_behavior_sample_n b"
  by (simp add: gate_config_def)

lemma allow_unknown:
  "stage \<notin> dom (gate_stage_limits g) \<Longrightarrow> allow g stage i now = Inr (False, g)"
  by (simp add: allow_def)

lemma allow_disabled:
  "stage \<in> dom (gate_stage_limits g) \<Longrightarrow> \<not> gate_enabled g \<Longrightarrow>
   allow g stage i now = Inr (True, g)"
  by (simp add: allow_def)

lemma allow_sampled_out:
  "stage \<in> dom (gate_stage_limits g) \<Longrightarrow> gate_enabled g \<Longrightarrow> stage = ''behavior'' \<Longrightarrow>
   \<not> behavior_sampling_allows g (max 0 i) \<Longrightarrow> allow g stage i now = Inr (False, g)"
  by (simp add: allow_def)

lemma allow_inv:
  assumes inv: "gate_inv g T" and le: "T \<le> now"
  shows "\<exists>ok g'. allow g stage i now = Inr (ok, g') \<and> gate_inv g' now
                 \<and> gate_config g' = gate_config g
                 \<and> (gate_enabled g \<longrightarrow>
                       (\<not> ok \<and> queue_of g' ''global'' = queue_of g ''global'')
                     \<or> queue_of g' ''global'' =
                          prune (queue_of g ''global'') now @ (if ok then [now] else []))"
proof -
  have wf: "gate_wf g" using inv by (simp add: gate_inv_def)
  have inv': "gate_inv g now" by (rule gate_inv_mono [OF inv le])
  show ?thesis
  proof (cases "stage \<in> {''reply'', ''behavior'', ''extraction''} \<and> gate_enabled g
                \<and> (stage = ''behavior'' \<longrightarrow> behavior_sampling_allows g (max 0 i))")
    case False
    have dm: "dom (gate_stage_limits g) = {''reply'', ''behavior'', ''extraction''}"
      using wf by (simp add: gate_wf_def)
    consider "stage \<notin> dom (gate_stage_limits g)"
      | "stage \<in> dom (gate_stage_limits g)" "\<not> gate_enabled g"
      | "stage \<in> dom (gate_stage_limits g)" "gate_enabled g" "stage = ''behavior''"
        "\<not> behavior_sampling_allows g (max 0 i)"
      using False unfolding dm by metis
    then have "allow g stage i now = Inr (False, g)
               \<or> (allow g stage i now = Inr (True, g) \<and> \<not> gate_enabled g)"
    proof cases
      case 1
      then show ?thesis by (simp add: allow_unknown)
    next
      case 2
      then show ?thesis by (simp add: allow_disabled)
    next
      case 3
      then show ?thesis by (simp add: allow_sampled_out)
    qed
    then show ?thesis
    proof
      assume "allow g stage i now = Inr (False, g)"
      then show ?thesis using inv' by (intro exI [of _ False]) simp
    next
      assume "allow g stage i now = Inr (True, g) \<and> \<not> gate_enabled g"
      then show ?thesis using inv' by (intro exI [of _ True]) simp
    qed
  next
    case True
    then have st: "stage \<in> {''reply'', ''behavior'', ''extraction''}" and en: "gate_enabled g"
      and sa: "stage = ''behavior'' \<longrightarrow> behavior_sampling_allows g (max 0 i)" by simp_all
    obtain sl where sl: "gate_stage_limits g stage = Some sl" using wf_limits [OF wf st] ..
    obtain d where d: "gate_dropped g stage = Some d" using wf_dropped [OF wf st] ..
    let ?p = "g\<lparr>gate_calls := (gate_calls g)(''global'' \<mapsto> prune (queue_of g ''global'') now,
                                              stage \<mapsto> prune (queue_of g stage) now)\<rparr>"
    have ip: "gate_inv ?p now" by (rule gate_inv_pruned [OF inv le st])
    have ne: "stage \<noteq> ''global''" using st by auto
    have dd: "stage \<in> dom (gate_dropped ?p)" using d by (simp add: domIff)
    have i1: "gate_inv (?p\<lparr>gate_dropped := (gate_dropped ?p)(stage \<mapsto> d + 1)\<rparr>) now"
      by (rule gate_inv_dropped [OF ip dd])
    have i2: "gate_inv (?p\<lparr>gate_calls := (gate_calls ?p)(''global'' \<mapsto> queue_of ?p ''global'' @ [now],
                                              stage \<mapsto> queue_of ?p stage @ [now])\<rparr>) now"
      by (rule gate_inv_appended [OF ip st])
    have e2: "?p\<lparr>gate_calls := (gate_calls ?p)(''global'' \<mapsto> queue_of ?p ''global'' @ [now],
                                              stage \<mapsto> queue_of ?p stage @ [now])\<rparr>
        = g\<lparr>gate_calls := (gate_calls g)(''global'' \<mapsto> prune (queue_of g ''global'') now @ [now],
                                              stage \<mapsto> prune (queue_of g stage) now @ [now])\<rparr>"
      using ne by (simp add: qo_upd2 fun_upd_twist [of stage "''global''"])
    show ?thesis
    proof (cases "int (length (prune (queue_of g ''global'') now)) \<ge> gate_global_limit g
         \<or> int (length (prune (queue_of g stage) now)) \<ge> sl")
      case True
      then have "allow g stage i now =
          Inr (False, ?p\<lparr>gate_dropped := (gate_dropped ?p)(stage \<mapsto> d + 1)\<rparr>)"
        using allow_wf [OF wf st en sa sl d, of now] by simp
      then show ?thesis using i1 ne by (intro exI [of _ False]) (simp add: qo_upd2)
    next
      case False
      then have "allow g stage i now =
          Inr (True, g\<lparr>gate_calls := (gate_calls g)(''global'' \<mapsto> prune (queue_of g ''global'') now @ [now],
                                              stage \<mapsto> prune (queue_of g stage) now @ [now])\<rparr>)"
        using allow_wf [OF wf st en sa sl d, of now] by simp
      then show ?thesis using i2 ne unfolding e2 by (intro exI [of _ True]) (simp add: qo_upd2)
    qed
  qed
qed

lemma prune_Nil [simp]: "prune [] now = []"
  by (simp add: prune_def)

lemma queue_of_pruned_all: "queue_of (pruned_all g now) k = prune (queue_of g k) now"
  by (simp add: queue_of_def pruned_all_def split: option.splits)

lemma wf_pruned_all: "gate_wf g \<Longrightarrow> gate_wf (pruned_all g now)"
  by (simp add: gate_wf_def pruned_all_def dom_def)

lemma snapshot_wf:
  assumes wf: "gate_wf g"
  shows "\<exists>snap. snapshot g now = Inr (snap, pruned_all g now)
           \<and> in_window_calls snap =
               [''global'' \<mapsto> int (length (prune (queue_of g ''global'') now)),
                ''reply'' \<mapsto> int (length (prune (queue_of g ''reply'') now)),
                ''behavior'' \<mapsto> int (length (prune (queue_of g ''behavior'') now)),
                ''extraction'' \<mapsto> int (length (prune (queue_of g ''extraction'') now))]
           \<and> dropped_calls snap = gate_dropped g"
proof -
  obtain l1 where l1: "gate_stage_limits g ''reply'' = Some l1"
    using wf_limits [OF wf, of "''reply''"] by auto
  obtain l2 where l2: "gate_stage_limits g ''behavior'' = Some l2"
    using wf_limits [OF wf, of "''behavior''"] by auto
  obtain l3 where l3: "gate_stage_limits g ''extraction'' = Some l3"
    using wf_limits [OF wf, of "''extraction''"] by auto
  have c: "gate_calls g k = Some (queue_of g k)"
    if "k \<in> {''global'', ''reply'', ''behavior'', ''extraction''}" for k
    using wf_calls [OF wf that] .
  show ?thesis
    unfolding snapshot_def Let_def pruned_all_def
    by (simp add: l1 l2 l3 c lookup_def)
qed

lemma gate_inv_pruned_all:
  assumes inv: "gate_inv g T" and le: "T \<le> now"
  shows "gate_inv (pruned_all g now) now"
proof -
  from inv have wf: "gate_wf g"
    and so: "\<And>k. sorted (queue_of g k)"
    and bd: "\<And>k t. t \<in> set (queue_of g k) \<Longrightarrow> t \<le> T"
    and cnt: "\<And>c. T - 60 \<le> c \<Longrightarrow>
          length (in_window c (queue_of g ''global'')) =
            length (in_window c (queue_of g ''reply''))
          + length (in_window c (queue_of g ''behavior''))
          + length (in_window c (queue_of g ''extraction''))"
    by (simp_all add: gate_inv_def)
  have bd': "t \<le> now" if "t \<in> set (prune (queue_of g k) now)" for k t
  proof -
    have "t \<in> set (queue_of g k)" using that set_prune [OF so, of k now] by auto
    then have "t \<le> T" by (rule bd)
    then show ?thesis using le by simp
  qed
  have cnt': "length (in_window c (prune (queue_of g ''global'') now)) =
            length (in_window c (prune (queue_of g ''reply'') now))
          + length (in_window c (prune (queue_of g ''behavior'') now))
          + length (in_window c (prune (queue_of g ''extraction'') now))" if c: "now - 60 \<le> c" for c
  proof -
    have c': "T - 60 \<le> c" using c le by simp
    show ?thesis by (simp add: in_window_prune [OF so c] cnt [OF c'])
  qed
  show ?thesis
    unfolding gate_inv_def queue_of_pruned_all
    using wf_pruned_all [OF wf] so bd' cnt' by (simp add: sorted_prune)
qed

lemma in_window_append: "in_window c (xs @ ys) = in_window c xs @ in_window c ys"
  by (simp add: in_window_def)

lemma adm_inv_step:
  assumes adm: "adm_inv g A T" and so: "sorted (queue_of g ''global'')" and le: "T \<le> now"
    and en: "gate_enabled g'"
    and q: "(\<not> ok \<and> queue_of g' ''global'' = queue_of g ''global'')
           \<or> queue_of g' ''global'' = prune (queue_of g ''global'') now @ (if ok then [now] else [])"
  shows "adm_inv g' (A @ (if ok then [now] else [])) now"
  unfolding adm_inv_def
proof (intro conjI allI impI)
  show "gate_enabled g'" by (rule en)
next
  fix c assume c: "now - 60 \<le> c"
  then have c': "T - 60 \<le> c" using le by simp
  have a: "in_window c A = in_window c (queue_of g ''global'')"
    using adm c' by (simp add: adm_inv_def)
  from q show "in_window c (A @ (if ok then [now] else [])) = in_window c (queue_of g' ''global'')"
  proof
    assume "\<not> ok \<and> queue_of g' ''global'' = queue_of g ''global''"
    then show ?thesis using a by simp
  next
    assume "queue_of g' ''global'' = prune (queue_of g ''global'') now @ (if ok then [now] else [])"
    then show ?thesis
      using a in_window_prune [OF so c] by (simp add: in_window_append)
  qed
qed

lemma step_inv:
  assumes inv: "gate_inv g T" and le: "T \<le> call_time c"
  shows "\<exists>ok g'. step g c = Inr (ok, g') \<and> gate_inv g' (call_time c)
                 \<and> gate_config g' = gate_config g
                 \<and> (\<forall>A. adm_inv g A T \<longrightarrow>
                        adm_inv g' (A @ (if ok then [call_time c] else [])) (call_time c))"
proof -
  have wf: "gate_wf g" and so: "sorted (queue_of g ''global'')"
    using inv by (simp_all add: gate_inv_def)
  show ?thesis
  proof (cases c)
    case (Allow stage i now)
    obtain ok g' where a: "allow g stage i now = Inr (ok, g')" and i': "gate_inv g' now"
      and e': "gate_config g' = gate_config g"
      and q: "gate_enabled g \<longrightarrow>
                (\<not> ok \<and> queue_of g' ''global'' = queue_of g ''global'')
              \<or> queue_of g' ''global'' = prune (queue_of g ''global'') now @ (if ok then [now] else [])"
      using allow_inv [OF inv, of now stage i] le Allow by auto
    have "adm_inv g' (A @ (if ok then [now] else [])) now" if adm: "adm_inv g A T" for A
    proof -
      have en: "gate_enabled g" using adm by (simp add: adm_inv_def)
      show ?thesis
        by (rule adm_inv_step [OF adm so]) (use le Allow en e' q in simp_all)
    qed
    then show ?thesis using a i' e' Allow
      by (intro exI [of _ ok] exI [of _ g']) (cases ok; simp)
  next
    case (Snapshot now)
    obtain snap where sn: "snapshot g now = Inr (snap, pruned_all g now)"
      using snapshot_wf [OF wf, of now] by auto
    have i': "gate_inv (pruned_all g now) now"
      using gate_inv_pruned_all [OF inv, of now] le Snapshot by simp
    have e': "gate_config (pruned_all g now) = gate_config g" by (simp add: pruned_all_def)
    have "adm_inv (pruned_all g now) (A @ (if False then [now] else [])) now"
      if adm: "adm_inv g A T" for A
    proof -
      have en: "gate_enabled g" using adm by (simp add: adm_inv_def)
      show ?thesis
        by (rule adm_inv_step [OF adm so]) (use le Snapshot en e' in \<open>simp_all add: queue_of_pruned_all\<close>)
    qed
    then show ?thesis using sn i' e' Snapshot
      by (intro exI [of _ False] exI [of _ "pruned_all g now"]) simp
  qed
qed

lemma run_inv:
  assumes "gate_inv g T" and "sorted (T # map call_time cs)"
  shows "\<exists>g'. run g cs = Inr g' \<and> gate_inv g' (last (T # map call_time cs))
              \<and> gate_config g' = gate_config g
              \<and> (\<forall>A. adm_inv g A T \<longrightarrow>
                     adm_inv g' (A @ admitted_times g cs) (last (T # map call_time cs)))"
  using assms
proof (induction cs arbitrary: g T)
  case Nil
  then show ?case by simp
next
  case (Cons c cs)
  have le: "T \<le> call_time c" using Cons.prems(2) by simp
  obtain ok g1 where s: "step g c = Inr (ok, g1)" and i1: "gate_inv g1 (call_time c)"
    and e1: "gate_config g1 = gate_config g"
    and a1: "\<And>A. adm_inv g A T \<Longrightarrow> adm_inv g1 (A @ (if ok then [call_time c] else [])) (call_time c)"
    using step_inv [OF Cons.prems(1) le] by blast
  have so: "sorted (call_time c # map call_time cs)" using Cons.prems(2) by simp
  obtain g' where r: "run g1 cs = Inr g'"
    and i': "gate_inv g' (last (call_time c # map call_time cs))"
    and e': "gate_config g' = gate_config g1"
    and a': "\<And>A. adm_inv g1 A (call_time c) \<Longrightarrow>
                adm_inv g' (A @ admitted_times g1 cs) (last (call_time c # map call_time cs))"
    using Cons.IH [OF i1 so] by blast
  have "adm_inv g' (A @ admitted_times g (c # cs)) (last (T # map call_time (c # cs)))"
    if adm: "adm_inv g A T" for A
    using a' [OF a1 [OF adm]] s by simp
  then show ?case using s r i' e1 e' by simp
qed

lemma queue_of_init: "queue_of (LLMCallGate_init e a b c d n) k = []"
  by (simp add: queue_of_def LLMCallGate_init_def)

lemma gate_inv_init: "gate_inv (LLMCallGate_init e a b c d n) T"
  unfolding gate_inv_def queue_of_init by (simp add: wf_init in_window_def)

lemma adm_inv_mono:
  assumes "adm_inv g A T" and "T \<le> T'"
  shows "adm_inv g A T'"
  unfolding adm_inv_def
proof (intro conjI allI impI)
  show "gate_enabled g" using assms(1) by (simp add: adm_inv_def)
next
  fix c assume "T' - 60 \<le> c"
  then have "T - 60 \<le> c" using assms(2) by simp
  then show "in_window c A = in_window c (queue_of g ''global'')"
    using assms(1) by (simp add: adm_inv_def)
qed

lemma run_init:
  assumes so: "sorted (map call_time cs @ [now])"
  shows "\<exists>g. run (LLMCallGate_init e a b c d n) cs = Inr g \<and> gate_inv g now
             \<and> gate_config g = gate_config (LLMCallGate_init e a b c d n)
             \<and> gate_enabled g = e
             \<and> (e \<longrightarrow> adm_inv g (admitted_times (LLMCallGate_init e a b c d n) cs) now)"
proof -
  let ?g0 = "LLMCallGate_init e a b c d n"
  let ?T = "hd (map call_time cs @ [now])"
  have s1: "sorted (?T # map call_time cs)"
    using so by (cases cs) (simp_all add: sorted_append)
  have al: "\<forall>t \<in> set (map call_time cs). t \<le> now"
    using so by (simp add: sorted_append)
  have tl: "?T \<le> now"
    using so by (cases cs) (simp_all add: sorted_append)
  have "last (?T # map call_time cs) \<in> set (?T # map call_time cs)"
    by (rule last_in_set) simp
  then have l: "last (?T # map call_time cs) \<le> now"
    using al tl by auto
  from run_inv [OF gate_inv_init s1, of e a b c d n]
  obtain g where r: "run ?g0 cs = Inr g" and i: "gate_inv g (last (?T # map call_time cs))"
    and en: "gate_config g = gate_config ?g0"
    and a: "\<forall>A. adm_inv ?g0 A ?T \<longrightarrow>
               adm_inv g (A @ admitted_times ?g0 cs) (last (?T # map call_time cs))"
    by (elim exE conjE)
  have e0: "gate_enabled ?g0 = e" by (simp add: LLMCallGate_init_def)
  have i': "gate_inv g now" by (rule gate_inv_mono [OF i l])
  have "adm_inv g (admitted_times ?g0 cs) now" if e
  proof -
    have "adm_inv ?g0 [] ?T"
      unfolding adm_inv_def queue_of_init using that e0 by (simp add: in_window_def)
    with a have "adm_inv g ([] @ admitted_times ?g0 cs) (last (?T # map call_time cs))"
      by (rule_tac mp [OF spec [OF a]])
    then have "adm_inv g (admitted_times ?g0 cs) (last (?T # map call_time cs))"
      by simp
    then show ?thesis using l by (rule adm_inv_mono)
  qed
  then show ?thesis using r i' en e0 by simp
qed

text \<open>
  C10. Start from a freshly constructed gate, run any sequence of \<open>allow\<close> and
  \<open>snapshot\<close> calls whose clock values never decrease, then take a snapshot at a clock
  value that is not earlier than the last one. No call raises, and in the snapshot the
  global in-window count is the sum of the reply, behavior and extraction in-window counts.
  A snapshot inside the sequence is covered as the snapshot after the calls before it.
\<close>

theorem snapshot_global_is_sum_of_stages:
  assumes "sorted (map call_time cs @ [now])"
  shows "\<exists>g snap g' n_reply n_behavior n_extraction.
           run (LLMCallGate_init e a b c d n) cs = Inr g
         \<and> snapshot g now = Inr (snap, g')
         \<and> in_window_calls snap ''reply'' = Some n_reply
         \<and> in_window_calls snap ''behavior'' = Some n_behavior
         \<and> in_window_calls snap ''extraction'' = Some n_extraction
         \<and> in_window_calls snap ''global'' = Some (n_reply + n_behavior + n_extraction)"
proof -
  from run_init [OF assms, of e a b c d n]
  obtain g where r: "run (LLMCallGate_init e a b c d n) cs = Inr g" and i: "gate_inv g now"
    by (elim exE conjE)
  have wf: "gate_wf g" and so: "\<And>k. sorted (queue_of g k)"
    and cnt: "length (in_window (now - 60) (queue_of g ''global'')) =
            length (in_window (now - 60) (queue_of g ''reply''))
          + length (in_window (now - 60) (queue_of g ''behavior''))
          + length (in_window (now - 60) (queue_of g ''extraction''))"
    using i by (simp_all add: gate_inv_def)
  have p: "prune (queue_of g k) now = in_window (now - 60) (queue_of g k)" for k
    by (simp add: prune_sorted [OF so] in_window_def)
  from snapshot_wf [OF wf, of now]
  obtain snap where sn: "snapshot g now = Inr (snap, pruned_all g now)"
    and w: "in_window_calls snap =
               [''global'' \<mapsto> int (length (prune (queue_of g ''global'') now)),
                ''reply'' \<mapsto> int (length (prune (queue_of g ''reply'') now)),
                ''behavior'' \<mapsto> int (length (prune (queue_of g ''behavior'') now)),
                ''extraction'' \<mapsto> int (length (prune (queue_of g ''extraction'') now))]"
    by (elim exE conjE)
  have w1: "in_window_calls snap ''reply'' = Some (int (length (in_window (now - 60) (queue_of g ''reply''))))"
    and w2: "in_window_calls snap ''behavior'' = Some (int (length (in_window (now - 60) (queue_of g ''behavior''))))"
    and w3: "in_window_calls snap ''extraction'' = Some (int (length (in_window (now - 60) (queue_of g ''extraction''))))"
    and w0: "in_window_calls snap ''global'' = Some (int (length (in_window (now - 60) (queue_of g ''global''))))"
    by (simp_all add: w p)
  have w0': "in_window_calls snap ''global'' =
      Some (int (length (in_window (now - 60) (queue_of g ''reply'')))
          + int (length (in_window (now - 60) (queue_of g ''behavior'')))
          + int (length (in_window (now - 60) (queue_of g ''extraction''))))"
    unfolding w0 cnt by simp
  show ?thesis
    by (intro exI conjI) (rule r, rule sn, rule w1, rule w2, rule w3, rule w0')
qed

theorem snapshot_global_is_sum_of_stages_witness:
  "sorted (map call_time [Allow ''reply'' 0 0, Allow ''behavior'' 1 1, Snapshot 2] @ [70])
   \<and> (\<exists>g snap g' n_reply n_behavior n_extraction.
           run (LLMCallGate_init True 5 5 5 5 1)
               [Allow ''reply'' 0 0, Allow ''behavior'' 1 1, Snapshot 2] = Inr g
         \<and> snapshot g 70 = Inr (snap, g')
         \<and> in_window_calls snap ''reply'' = Some n_reply
         \<and> in_window_calls snap ''behavior'' = Some n_behavior
         \<and> in_window_calls snap ''extraction'' = Some n_extraction
         \<and> in_window_calls snap ''global'' = Some (n_reply + n_behavior + n_extraction))"
proof -
  have h: "sorted (map call_time [Allow ''reply'' 0 0, Allow ''behavior'' 1 1, Snapshot 2] @ [70])"
    by simp
  show ?thesis by (rule conjI [OF h snapshot_global_is_sum_of_stages [OF h]])
qed

lemma sampling_iff:
  assumes n: "1 \<le> gate_behavior_sample_n g"
  shows "behavior_sampling_allows g (max 0 i) \<longleftrightarrow>
          i \<le> 1 \<or> (i - 1) mod gate_behavior_sample_n g = 0"
proof (cases "gate_behavior_sample_n g \<le> 1")
  case True
  then have "gate_behavior_sample_n g = 1" using n by simp
  then show ?thesis by (simp add: behavior_sampling_allows_def)
next
  case False
  then show ?thesis
    by (cases "i \<le> 1") (simp_all add: behavior_sampling_allows_def max_def)
qed

lemma allow_behavior:
  assumes wf: "gate_wf g" and en: "gate_enabled g" and n: "1 \<le> gate_behavior_sample_n g"
    and sl: "gate_stage_limits g ''behavior'' = Some sl"
    and d: "gate_dropped g ''behavior'' = Some d"
  shows "allow g ''behavior'' i now =
     (if i \<le> 1 \<or> (i - 1) mod gate_behavior_sample_n g = 0 then
        (if int (length (prune (queue_of g ''global'') now)) \<ge> gate_global_limit g
            \<or> int (length (prune (queue_of g ''behavior'') now)) \<ge> sl
         then Inr (False, g\<lparr>gate_calls := (gate_calls g)
                               (''global'' \<mapsto> prune (queue_of g ''global'') now,
                                ''behavior'' \<mapsto> prune (queue_of g ''behavior'') now),
                            gate_dropped := (gate_dropped g)(''behavior'' \<mapsto> d + 1)\<rparr>)
         else Inr (True, g\<lparr>gate_calls := (gate_calls g)
                               (''global'' \<mapsto> prune (queue_of g ''global'') now @ [now],
                                ''behavior'' \<mapsto> prune (queue_of g ''behavior'') now @ [now])\<rparr>))
      else Inr (False, g))"
proof (cases "i \<le> 1 \<or> (i - 1) mod gate_behavior_sample_n g = 0")
  case True
  then have sa: "''behavior'' = ''behavior'' \<longrightarrow> behavior_sampling_allows g (max 0 i)"
    using sampling_iff [OF n, of i] by simp
  have st: "''behavior'' \<in> {''reply'', ''behavior'', ''extraction''}" by simp
  show ?thesis
    using allow_wf [OF wf st en sa sl d, of now] True by simp
next
  case False
  then have "\<not> behavior_sampling_allows g (max 0 i)"
    using sampling_iff [OF n, of i] by simp
  moreover have "''behavior'' \<in> dom (gate_stage_limits g)" using sl by (simp add: domIff)
  ultimately have "allow g ''behavior'' i now = Inr (False, g)"
    using en by (simp add: allow_sampled_out)
  then show ?thesis using False by simp
qed

lemma allow_fresh_behavior:
  "allowed (allow (LLMCallGate_init True G r b x m) ''behavior'' i now)
     \<longleftrightarrow> i \<le> 1 \<or> (i - 1) mod max 1 m = 0"
proof -
  let ?g = "LLMCallGate_init True G r b x m"
  have wf: "gate_wf ?g" by (rule wf_init)
  have en: "gate_enabled ?g" by (simp add: LLMCallGate_init_def)
  have n: "1 \<le> gate_behavior_sample_n ?g" by (simp add: LLMCallGate_init_def)
  have nn: "gate_behavior_sample_n ?g = max 1 m" by (simp add: LLMCallGate_init_def)
  have sl: "gate_stage_limits ?g ''behavior'' = Some (max 1 b)" by (simp add: LLMCallGate_init_def)
  have d: "gate_dropped ?g ''behavior'' = Some 0" by (simp add: LLMCallGate_init_def)
  have gl: "gate_global_limit ?g = max 1 G" by (simp add: LLMCallGate_init_def)
  show ?thesis
    unfolding allow_behavior [OF wf en n sl d] queue_of_init nn gl
    by (simp add: allowed_def)
qed

text \<open>
  C6. Take an enabled gate in the shape the constructor builds, with sampling interval
  \<open>N\<close> at least 1 (the constructor coerces it so). The sampling test of a behavior call
  holds exactly when the message index is at most 1 or \<open>(index - 1) mod N = 0\<close>, and
  \<open>allow\<close> itself follows it: a call whose index meets the condition goes on to the
  sliding-window check, which admits it (appending the clock value to the global and the
  behavior queue) unless one of the two pruned queues is full, in which case the behavior
  drop counter goes up by one; a call whose index fails the condition returns false and
  leaves the whole gate (every queue, every drop counter) as it was. On a freshly
  constructed enabled gate a behavior call is therefore admitted exactly when its index
  meets the condition, and with \<open>N = 3\<close> the indices 1 to 7 are admitted at 1, 4 and 7
  only.
\<close>

theorem behavior_sampling_prefilter:
  assumes wf: "gate_wf g" and en: "gate_enabled g" and n: "1 \<le> gate_behavior_sample_n g"
    and sl: "gate_stage_limits g ''behavior'' = Some sl"
    and d: "gate_dropped g ''behavior'' = Some d"
  shows "(behavior_sampling_allows g (max 0 i) \<longleftrightarrow>
            i \<le> 1 \<or> (i - 1) mod gate_behavior_sample_n g = 0)
       \<and> allow g ''behavior'' i now =
           (if i \<le> 1 \<or> (i - 1) mod gate_behavior_sample_n g = 0 then
              (if int (length (prune (queue_of g ''global'') now)) \<ge> gate_global_limit g
                  \<or> int (length (prune (queue_of g ''behavior'') now)) \<ge> sl
               then Inr (False, g\<lparr>gate_calls := (gate_calls g)
                                     (''global'' \<mapsto> prune (queue_of g ''global'') now,
                                      ''behavior'' \<mapsto> prune (queue_of g ''behavior'') now),
                                  gate_dropped := (gate_dropped g)(''behavior'' \<mapsto> d + 1)\<rparr>)
               else Inr (True, g\<lparr>gate_calls := (gate_calls g)
                                     (''global'' \<mapsto> prune (queue_of g ''global'') now @ [now],
                                      ''behavior'' \<mapsto> prune (queue_of g ''behavior'') now @ [now])\<rparr>))
            else Inr (False, g))
       \<and> (allowed (allow (LLMCallGate_init True G r b x m) ''behavior'' i now)
            \<longleftrightarrow> i \<le> 1 \<or> (i - 1) mod max 1 m = 0)
       \<and> filter (\<lambda>j. allowed (allow (LLMCallGate_init True G r b x 3) ''behavior'' j now))
            [1, 2, 3, 4, 5, 6, 7] = [1, 4, 7]"
proof (intro conjI)
  show "behavior_sampling_allows g (max 0 i) \<longleftrightarrow>
          i \<le> 1 \<or> (i - 1) mod gate_behavior_sample_n g = 0"
    by (rule sampling_iff [OF n])
next
  show "allowed (allow (LLMCallGate_init True G r b x m) ''behavior'' i now)
          \<longleftrightarrow> i \<le> 1 \<or> (i - 1) mod max 1 m = 0"
    by (rule allow_fresh_behavior)
next
  show "filter (\<lambda>j. allowed (allow (LLMCallGate_init True G r b x 3) ''behavior'' j now))
            [1, 2, 3, 4, 5, 6, 7] = [1, 4, 7]"
    by (simp add: allow_fresh_behavior)
qed (rule allow_behavior [OF wf en n sl d])

theorem behavior_sampling_prefilter_witness:
  "gate_wf (LLMCallGate_init True 5 5 5 5 3)
   \<and> gate_enabled (LLMCallGate_init True 5 5 5 5 3)
   \<and> 1 \<le> gate_behavior_sample_n (LLMCallGate_init True 5 5 5 5 3)
   \<and> gate_stage_limits (LLMCallGate_init True 5 5 5 5 3) ''behavior'' = Some 5
   \<and> gate_dropped (LLMCallGate_init True 5 5 5 5 3) ''behavior'' = Some 0
   \<and> allow (LLMCallGate_init True 5 5 5 5 3) ''behavior'' 2 0
       = Inr (False, LLMCallGate_init True 5 5 5 5 3)
   \<and> allowed (allow (LLMCallGate_init True 5 5 5 5 3) ''behavior'' 4 0)
   \<and> filter (\<lambda>j. allowed (allow (LLMCallGate_init True 5 5 5 5 3) ''behavior'' j 0))
         [1, 2, 3, 4, 5, 6, 7] = [1, 4, 7]"
proof -
  have h1: "gate_wf (LLMCallGate_init True 5 5 5 5 3)" by (rule wf_init)
  have h2: "gate_enabled (LLMCallGate_init True 5 5 5 5 3)"
    by (simp add: LLMCallGate_init_def)
  have h3: "1 \<le> gate_behavior_sample_n (LLMCallGate_init True 5 5 5 5 3)"
    by (simp add: LLMCallGate_init_def)
  have h4: "gate_stage_limits (LLMCallGate_init True 5 5 5 5 3) ''behavior'' = Some 5"
    by (simp add: LLMCallGate_init_def)
  have h5: "gate_dropped (LLMCallGate_init True 5 5 5 5 3) ''behavior'' = Some 0"
    by (simp add: LLMCallGate_init_def)
  have n3: "gate_behavior_sample_n (LLMCallGate_init True 5 5 5 5 3) = 3"
    by (simp add: LLMCallGate_init_def)
  have a: "allow (LLMCallGate_init True 5 5 5 5 3) ''behavior'' 2 0
       = Inr (False, LLMCallGate_init True 5 5 5 5 3)"
    using behavior_sampling_prefilter [OF h1 h2 h3 h4 h5, of 2 0 5 5 5 5 3] n3 by simp
  have b: "allowed (allow (LLMCallGate_init True 5 5 5 5 3) ''behavior'' 4 0)"
    using behavior_sampling_prefilter
      [OF h1 h2 h3 h4 h5, of 4 0 5 5 5 5 3, THEN conjunct2, THEN conjunct2, THEN conjunct1]
    by simp
  have c: "filter (\<lambda>j. allowed (allow (LLMCallGate_init True 5 5 5 5 3) ''behavior'' j 0))
         [1, 2, 3, 4, 5, 6, 7] = [1, 4, 7]"
    using behavior_sampling_prefilter [OF h1 h2 h3 h4 h5, of 4 0 5 5 5 5 3]
    by (elim conjE)
  show ?thesis by (intro conjI h1 h2 h3 h4 h5 a b c)
qed

lemma allow_total:
  assumes wf: "gate_wf g"
  shows "\<exists>ok g'. allow g stage i now = Inr (ok, g') \<and> gate_wf g'
                 \<and> gate_config g' = gate_config g"
proof (cases "stage \<in> {''reply'', ''behavior'', ''extraction''} \<and> gate_enabled g
              \<and> (stage = ''behavior'' \<longrightarrow> behavior_sampling_allows g (max 0 i))")
  case False
  have dm: "dom (gate_stage_limits g) = {''reply'', ''behavior'', ''extraction''}"
    using wf by (simp add: gate_wf_def)
  consider "stage \<notin> dom (gate_stage_limits g)"
    | "stage \<in> dom (gate_stage_limits g)" "\<not> gate_enabled g"
    | "stage \<in> dom (gate_stage_limits g)" "gate_enabled g" "stage = ''behavior''"
      "\<not> behavior_sampling_allows g (max 0 i)"
    using False unfolding dm by metis
  then have "allow g stage i now = Inr (False, g) \<or> allow g stage i now = Inr (True, g)"
  proof cases
    case 1
    then show ?thesis by (simp add: allow_unknown)
  next
    case 2
    then show ?thesis by (simp add: allow_disabled)
  next
    case 3
    then show ?thesis by (simp add: allow_sampled_out)
  qed
  then show ?thesis
  proof
    assume "allow g stage i now = Inr (False, g)"
    then show ?thesis using wf by (intro exI [of _ False]) simp
  next
    assume "allow g stage i now = Inr (True, g)"
    then show ?thesis using wf by (intro exI [of _ True]) simp
  qed
next
  case True
  then have st: "stage \<in> {''reply'', ''behavior'', ''extraction''}" and en: "gate_enabled g"
    and sa: "stage = ''behavior'' \<longrightarrow> behavior_sampling_allows g (max 0 i)" by simp_all
  obtain sl where sl: "gate_stage_limits g stage = Some sl" using wf_limits [OF wf st] ..
  obtain d where d: "gate_dropped g stage = Some d" using wf_dropped [OF wf st] ..
  have gd: "''global'' \<in> dom (gate_calls g)" using wf by (simp add: gate_wf_def)
  have sd: "stage \<in> dom (gate_calls g)" using wf st by (auto simp add: gate_wf_def)
  have dd: "stage \<in> dom (gate_dropped g)" using d by (simp add: domIff)
  have w1: "gate_wf (g\<lparr>gate_calls := (gate_calls g)(''global'' \<mapsto> X, stage \<mapsto> Y)\<rparr>)" for X Y
    by (rule wf_upd2 [OF wf gd sd])
  have w2: "gate_wf (g\<lparr>gate_calls := (gate_calls g)(''global'' \<mapsto> X, stage \<mapsto> Y),
                       gate_dropped := (gate_dropped g)(stage \<mapsto> d + 1)\<rparr>)" for X Y
    using wf_upd_dropped [OF w1 [of X Y], of stage "d + 1"] dd by simp
  show ?thesis
  proof (cases "int (length (prune (queue_of g ''global'') now)) \<ge> gate_global_limit g
       \<or> int (length (prune (queue_of g stage) now)) \<ge> sl")
    case True
    then have "allow g stage i now =
        Inr (False, g\<lparr>gate_calls := (gate_calls g)(''global'' \<mapsto> prune (queue_of g ''global'') now,
                                              stage \<mapsto> prune (queue_of g stage) now),
                         gate_dropped := (gate_dropped g)(stage \<mapsto> d + 1)\<rparr>)"
      using allow_wf [OF wf st en sa sl d, of now] by simp
    then show ?thesis using w2 by (intro exI [of _ False]) simp
  next
    case False
    then have "allow g stage i now =
        Inr (True, g\<lparr>gate_calls := (gate_calls g)(''global'' \<mapsto> prune (queue_of g ''global'') now @ [now],
                                              stage \<mapsto> prune (queue_of g stage) now @ [now])\<rparr>)"
      using allow_wf [OF wf st en sa sl d, of now] by simp
    then show ?thesis using w1 by (intro exI [of _ True]) simp
  qed
qed

lemma run_total:
  "gate_wf g \<Longrightarrow> \<exists>g'. run g cs = Inr g' \<and> gate_wf g' \<and> gate_config g' = gate_config g"
proof (induction cs arbitrary: g)
  case Nil
  then show ?case by simp
next
  case (Cons c cs)
  have "\<exists>ok g1. step g c = Inr (ok, g1) \<and> gate_wf g1 \<and> gate_config g1 = gate_config g"
  proof (cases c)
    case (Allow stage i now)
    then show ?thesis using allow_total [OF Cons.prems, of stage i now] by simp
  next
    case (Snapshot now)
    obtain snap where s: "snapshot g now = Inr (snap, pruned_all g now)"
      using snapshot_wf [OF Cons.prems, of now] by (elim exE conjE)
    have "gate_config (pruned_all g now) = gate_config g" by (simp add: pruned_all_def)
    then show ?thesis
      using s Snapshot wf_pruned_all [OF Cons.prems, of now]
      by (intro exI [of _ False] exI [of _ "pruned_all g now"]) simp
  qed
  then obtain ok g1 where s: "step g c = Inr (ok, g1)" and w: "gate_wf g1"
    and c1: "gate_config g1 = gate_config g" by (elim exE conjE)
  from Cons.IH [OF w] obtain g' where r: "run g1 cs = Inr g'" and w': "gate_wf g'"
    and c2: "gate_config g' = gate_config g1" by (elim exE conjE)
  have "run g (c # cs) = Inr g'" using s r by simp
  moreover have "gate_config g' = gate_config g" using c1 c2 by (simp only:)
  ultimately show ?case using w' by (intro exI [of _ g'] conjI)
qed

lemma full_global_denies:
  assumes wf: "gate_wf g" and en: "gate_enabled g"
    and fl: "gate_global_limit g \<le> int (length (prune (queue_of g ''global'') now))"
  shows "\<exists>g'. allow g stage i now = Inr (False, g')
                 \<and> (if stage \<in> {''reply'', ''behavior'', ''extraction''}
                        \<and> (stage = ''behavior'' \<longrightarrow> behavior_sampling_allows g (max 0 i))
                     then \<exists>d. gate_dropped g stage = Some d
                              \<and> gate_dropped g' stage = Some (d + 1)
                     else g' = g)"
proof (cases "stage \<in> {''reply'', ''behavior'', ''extraction''}")
  case False
  have dm: "dom (gate_stage_limits g) = {''reply'', ''behavior'', ''extraction''}"
    using wf by (simp add: gate_wf_def)
  from False have "allow g stage i now = Inr (False, g)"
    unfolding dm [symmetric] by (rule allow_unknown)
  then show ?thesis using False by simp
next
  case st: True
  have dm: "dom (gate_stage_limits g) = {''reply'', ''behavior'', ''extraction''}"
    using wf by (simp add: gate_wf_def)
  from st have sd: "stage \<in> dom (gate_stage_limits g)" unfolding dm .
  show ?thesis
  proof (cases "stage = ''behavior'' \<longrightarrow> behavior_sampling_allows g (max 0 i)")
    case False
    then have "allow g stage i now = Inr (False, g)"
      using sd en by (simp add: allow_sampled_out)
    then show ?thesis using False by simp
  next
    case sa: True
    obtain sl where sl: "gate_stage_limits g stage = Some sl" using wf_limits [OF wf st] ..
    obtain d where d: "gate_dropped g stage = Some d" using wf_dropped [OF wf st] ..
    have "allow g stage i now =
        Inr (False, g\<lparr>gate_calls := (gate_calls g)(''global'' \<mapsto> prune (queue_of g ''global'') now,
                                            stage \<mapsto> prune (queue_of g stage) now),
                       gate_dropped := (gate_dropped g)(stage \<mapsto> d + 1)\<rparr>)"
      using allow_wf [OF wf st en sa sl d, of now] fl by simp
    then show ?thesis using st sa d by simp
  qed
qed

lemma run_pruned_global:
  assumes so: "sorted (map call_time cs @ [now])"
  shows "\<exists>g. run (LLMCallGate_init True G r b x n) cs = Inr g
           \<and> prune (queue_of g ''global'') now =
               filter (\<lambda>t. now - WINDOW_SECONDS \<le> t)
                 (admitted_times (LLMCallGate_init True G r b x n) cs)"
proof -
  let ?g0 = "LLMCallGate_init True G r b x n"
  from run_init [OF so, of True G r b x n]
  obtain g where r: "run ?g0 cs = Inr g" and i: "gate_inv g now"
    and ad: "True \<longrightarrow> adm_inv g (admitted_times ?g0 cs) now"
    by (elim exE conjE)
  have sg: "sorted (queue_of g ''global'')" using i by (simp add: gate_inv_def)
  have "in_window (now - 60) (admitted_times ?g0 cs) = in_window (now - 60) (queue_of g ''global'')"
    using ad by (simp add: adm_inv_def)
  then have "prune (queue_of g ''global'') now =
      filter (\<lambda>t. now - WINDOW_SECONDS \<le> t) (admitted_times ?g0 cs)"
    by (simp add: prune_sorted [OF sg] in_window_def WINDOW_SECONDS_def)
  then show ?thesis using r by simp
qed

text \<open>
  C3 (amended). Take an enabled gate with global ceiling \<open>max 1 G\<close> after any sequence
  of calls; the sequence never raises. Whenever the global queue, pruned at the clock value
  \<open>now\<close> of the next call, holds at least \<open>max 1 G\<close> timestamps, \<open>allow\<close> returns
  false for every stage string and every index, whatever the order of the clock values.
  When the clock values of the calls and \<open>now\<close> are non-decreasing, the same holds as soon
  as at least \<open>max 1 G\<close> of the admitted calls have a timestamp not older than
  \<open>now - 60\<close>. The stage's drop counter goes up by one when the stage is one of the three
  known ones and the call is not a behavior call that the sampling pre-filter rejects; in
  the other cases (unknown stage, behavior call rejected by sampling) the gate is left
  exactly as it was. In the other direction, a call for a known stage that passes the
  sampling pre-filter is admitted, and \<open>now\<close> appended to the global and the stage
  queue, once the pruned global queue holds fewer than \<open>max 1 G\<close> timestamps and the
  pruned stage queue fewer than the stage's limit.
\<close>

theorem full_window_denies_every_stage:
  "\<exists>g. run (LLMCallGate_init True G r b x n) cs = Inr g
     \<and> (\<forall>stage i now.
           max 1 G \<le> int (length (prune (queue_of g ''global'') now))
         \<or> (sorted (map call_time cs @ [now])
            \<and> max 1 G \<le> int (length (filter (\<lambda>t. now - WINDOW_SECONDS \<le> t)
                                   (admitted_times (LLMCallGate_init True G r b x n) cs))))
         \<longrightarrow> (\<exists>g'. allow g stage i now = Inr (False, g')
                 \<and> (if stage \<in> {''reply'', ''behavior'', ''extraction''}
                        \<and> (stage = ''behavior'' \<longrightarrow> behavior_sampling_allows g (max 0 i))
                     then \<exists>d. gate_dropped g stage = Some d
                              \<and> gate_dropped g' stage = Some (d + 1)
                     else g' = g)))
     \<and> (\<forall>stage i now sl.
           stage \<in> {''reply'', ''behavior'', ''extraction''}
         \<and> (stage = ''behavior'' \<longrightarrow> behavior_sampling_allows g (max 0 i))
         \<and> gate_stage_limits g stage = Some sl
         \<and> int (length (prune (queue_of g ''global'') now)) < max 1 G
         \<and> int (length (prune (queue_of g stage) now)) < sl
         \<longrightarrow> allow g stage i now =
               Inr (True, g\<lparr>gate_calls := (gate_calls g)
                               (''global'' \<mapsto> prune (queue_of g ''global'') now @ [now],
                                stage \<mapsto> prune (queue_of g stage) now @ [now])\<rparr>))"
proof -
  let ?g0 = "LLMCallGate_init True G r b x n"
  from run_total [OF wf_init, of True G r b x n cs]
  obtain g where r: "run ?g0 cs = Inr g" and wf: "gate_wf g"
    and cf: "gate_config g = gate_config ?g0" by (elim exE conjE)
  have en: "gate_enabled g" using cf by (simp add: LLMCallGate_init_def)
  have lim: "gate_global_limit g = max 1 G" using cf by (simp add: LLMCallGate_init_def)
  have deny: "\<exists>g'. allow g stage i now = Inr (False, g')
                 \<and> (if stage \<in> {''reply'', ''behavior'', ''extraction''}
                        \<and> (stage = ''behavior'' \<longrightarrow> behavior_sampling_allows g (max 0 i))
                     then \<exists>d. gate_dropped g stage = Some d
                              \<and> gate_dropped g' stage = Some (d + 1)
                     else g' = g)"
    if h: "max 1 G \<le> int (length (prune (queue_of g ''global'') now))
         \<or> (sorted (map call_time cs @ [now])
            \<and> max 1 G \<le> int (length (filter (\<lambda>t. now - WINDOW_SECONDS \<le> t)
                                   (admitted_times ?g0 cs))))" for stage i now
  proof -
    have fl: "gate_global_limit g \<le> int (length (prune (queue_of g ''global'') now))"
      using h
    proof
      assume "max 1 G \<le> int (length (prune (queue_of g ''global'') now))"
      then show ?thesis unfolding lim .
    next
      assume a: "sorted (map call_time cs @ [now])
            \<and> max 1 G \<le> int (length (filter (\<lambda>t. now - WINDOW_SECONDS \<le> t)
                                   (admitted_times ?g0 cs)))"
      then have so: "sorted (map call_time cs @ [now])" by (rule conjunct1)
      from run_pruned_global [OF so, of G r b x n]
      obtain g2 where r2: "run ?g0 cs = Inr g2"
        and p: "prune (queue_of g2 ''global'') now =
               filter (\<lambda>t. now - WINDOW_SECONDS \<le> t) (admitted_times ?g0 cs)"
        by (elim exE conjE)
      have "g2 = g" using r r2 by simp
      then show ?thesis using a p unfolding lim by simp
    qed
    show ?thesis by (rule full_global_denies [OF wf en fl])
  qed
  have admit: "allow g stage i now =
               Inr (True, g\<lparr>gate_calls := (gate_calls g)
                               (''global'' \<mapsto> prune (queue_of g ''global'') now @ [now],
                                stage \<mapsto> prune (queue_of g stage) now @ [now])\<rparr>)"
    if h: "stage \<in> {''reply'', ''behavior'', ''extraction''}
         \<and> (stage = ''behavior'' \<longrightarrow> behavior_sampling_allows g (max 0 i))
         \<and> gate_stage_limits g stage = Some sl
         \<and> int (length (prune (queue_of g ''global'') now)) < max 1 G
         \<and> int (length (prune (queue_of g stage) now)) < sl" for stage i now sl
  proof -
    from h have st: "stage \<in> {''reply'', ''behavior'', ''extraction''}"
      and sa: "stage = ''behavior'' \<longrightarrow> behavior_sampling_allows g (max 0 i)"
      and sl: "gate_stage_limits g stage = Some sl"
      and a: "int (length (prune (queue_of g ''global'') now)) < max 1 G"
      and c: "int (length (prune (queue_of g stage) now)) < sl"
      by simp_all
    obtain d where d: "gate_dropped g stage = Some d" using wf_dropped [OF wf st] ..
    have na: "\<not> gate_global_limit g \<le> int (length (prune (queue_of g ''global'') now))"
      using a by (simp only: lim not_le)
    have nc: "\<not> sl \<le> int (length (prune (queue_of g stage) now))"
      using c by (simp only: not_le)
    show ?thesis
      using allow_wf [OF wf st en sa sl d, of now] na nc by simp
  qed
  have deny': "\<forall>stage i now.
           max 1 G \<le> int (length (prune (queue_of g ''global'') now))
         \<or> (sorted (map call_time cs @ [now])
            \<and> max 1 G \<le> int (length (filter (\<lambda>t. now - WINDOW_SECONDS \<le> t)
                                   (admitted_times ?g0 cs))))
         \<longrightarrow> (\<exists>g'. allow g stage i now = Inr (False, g')
                 \<and> (if stage \<in> {''reply'', ''behavior'', ''extraction''}
                        \<and> (stage = ''behavior'' \<longrightarrow> behavior_sampling_allows g (max 0 i))
                     then \<exists>d. gate_dropped g stage = Some d
                              \<and> gate_dropped g' stage = Some (d + 1)
                     else g' = g))"
    by (intro allI impI) (rule deny)
  have admit': "\<forall>stage i now sl.
           stage \<in> {''reply'', ''behavior'', ''extraction''}
         \<and> (stage = ''behavior'' \<longrightarrow> behavior_sampling_allows g (max 0 i))
         \<and> gate_stage_limits g stage = Some sl
         \<and> int (length (prune (queue_of g ''global'') now)) < max 1 G
         \<and> int (length (prune (queue_of g stage) now)) < sl
         \<longrightarrow> allow g stage i now =
               Inr (True, g\<lparr>gate_calls := (gate_calls g)
                               (''global'' \<mapsto> prune (queue_of g ''global'') now @ [now],
                                stage \<mapsto> prune (queue_of g stage) now @ [now])\<rparr>)"
    by (intro allI impI) (rule admit)
  show ?thesis
    using r deny' admit' by (intro exI [of _ g] conjI)
qed

theorem full_window_denies_every_stage_witness:
  "sorted (map call_time [Allow ''reply'' 0 0] @ [1])
   \<and> max 1 1 \<le> int (length (filter (\<lambda>t. 1 - WINDOW_SECONDS \<le> t)
                                  (admitted_times (LLMCallGate_init True 1 1 1 1 3)
                                     [Allow ''reply'' 0 0])))
   \<and> (\<exists>g. run (LLMCallGate_init True 1 1 1 1 3) [Allow ''reply'' 0 0] = Inr g
           \<and> (\<forall>stage i. \<exists>g'. allow g stage i 1 = Inr (False, g')
                 \<and> (if stage \<in> {''reply'', ''behavior'', ''extraction''}
                        \<and> (stage = ''behavior'' \<longrightarrow> behavior_sampling_allows g (max 0 i))
                     then \<exists>d. gate_dropped g stage = Some d
                              \<and> gate_dropped g' stage = Some (d + 1)
                     else g' = g))
           \<and> gate_stage_limits g ''reply'' = Some 1
           \<and> int (length (prune (queue_of g ''global'') 61)) < max 1 1
           \<and> int (length (prune (queue_of g ''reply'') 61)) < 1
           \<and> (\<exists>g'. allow g ''reply'' 0 61 = Inr (True, g')))"
  (is "_ \<and> _ \<and> (\<exists>g. ?B g)")
proof -
  let ?g0 = "LLMCallGate_init True 1 1 1 1 3"
  let ?cs = "[Allow ''reply'' 0 0]"
  have h1: "sorted (map call_time ?cs @ [1])" by simp
  have a: "admitted_times ?g0 ?cs = [0]"
    by (simp add: allow_def LLMCallGate_init_def lookup_def prune_at_def append_at_def
        prune_def WINDOW_SECONDS_def)
  have h2: "max 1 1 \<le> int (length (filter (\<lambda>t. 1 - WINDOW_SECONDS \<le> t)
                                  (admitted_times ?g0 ?cs)))"
    unfolding a by (simp add: WINDOW_SECONDS_def)
  have st: "''reply'' \<in> {''reply'', ''behavior'', ''extraction''}" by simp
  have sa: "''reply'' = ''behavior'' \<longrightarrow> behavior_sampling_allows ?g0 (max 0 0)" by simp
  have sl0: "gate_stage_limits ?g0 ''reply'' = Some 1" by (simp add: LLMCallGate_init_def)
  have d0: "gate_dropped ?g0 ''reply'' = Some 0" by (simp add: LLMCallGate_init_def)
  have en0: "gate_enabled ?g0" by (simp add: LLMCallGate_init_def)
  have gl0: "gate_global_limit ?g0 = 1" by (simp add: LLMCallGate_init_def)
  let ?g1 = "?g0\<lparr>gate_calls := (gate_calls ?g0)(''global'' \<mapsto> [0], ''reply'' \<mapsto> [0])\<rparr>"
  have al: "allow ?g0 ''reply'' 0 0 = Inr (True, ?g1)"
    using allow_wf [OF wf_init st en0 sa sl0 d0, of 0] by (simp add: queue_of_init gl0)
  have rc: "run ?g0 ?cs = Inr ?g1" by (simp add: al)
  from full_window_denies_every_stage [of 1 1 1 1 3 ?cs]
  obtain g where r: "run ?g0 ?cs = Inr g"
    and d: "\<forall>stage i now.
           max 1 1 \<le> int (length (prune (queue_of g ''global'') now))
         \<or> (sorted (map call_time ?cs @ [now])
            \<and> max 1 1 \<le> int (length (filter (\<lambda>t. now - WINDOW_SECONDS \<le> t)
                                   (admitted_times ?g0 ?cs))))
         \<longrightarrow> (\<exists>g'. allow g stage i now = Inr (False, g')
                 \<and> (if stage \<in> {''reply'', ''behavior'', ''extraction''}
                        \<and> (stage = ''behavior'' \<longrightarrow> behavior_sampling_allows g (max 0 i))
                     then \<exists>d. gate_dropped g stage = Some d
                              \<and> gate_dropped g' stage = Some (d + 1)
                     else g' = g))"
    and ad: "\<forall>stage i now sl.
           stage \<in> {''reply'', ''behavior'', ''extraction''}
         \<and> (stage = ''behavior'' \<longrightarrow> behavior_sampling_allows g (max 0 i))
         \<and> gate_stage_limits g stage = Some sl
         \<and> int (length (prune (queue_of g ''global'') now)) < max 1 1
         \<and> int (length (prune (queue_of g stage) now)) < sl
         \<longrightarrow> allow g stage i now =
               Inr (True, g\<lparr>gate_calls := (gate_calls g)
                               (''global'' \<mapsto> prune (queue_of g ''global'') now @ [now],
                                stage \<mapsto> prune (queue_of g stage) now @ [now])\<rparr>)"
    by (elim exE conjE)
  have g1: "g = ?g1" using r rc by (simp only: sum.inject)
  have qg: "queue_of g ''global'' = [0]" unfolding g1 by (simp add: qo_upd2)
  have qr: "queue_of g ''reply'' = [0]" unfolding g1 by (simp add: qo_upd2)
  have sl: "gate_stage_limits g ''reply'' = Some 1" unfolding g1 using sl0 by simp
  have p1: "int (length (prune (queue_of g ''global'') 61)) < max 1 1"
    unfolding qg by (simp add: prune_def WINDOW_SECONDS_def)
  have p2: "int (length (prune (queue_of g ''reply'') 61)) < 1"
    unfolding qr by (simp add: prune_def WINDOW_SECONDS_def)
  have den: "\<exists>g'. allow g stage i 1 = Inr (False, g')
                 \<and> (if stage \<in> {''reply'', ''behavior'', ''extraction''}
                        \<and> (stage = ''behavior'' \<longrightarrow> behavior_sampling_allows g (max 0 i))
                     then \<exists>d. gate_dropped g stage = Some d
                              \<and> gate_dropped g' stage = Some (d + 1)
                     else g' = g)" for stage i
    by (rule mp [OF spec [OF spec [OF spec [OF d]]] disjI2 [OF conjI [OF h1 h2]]])
  have hy: "''reply'' \<in> {''reply'', ''behavior'', ''extraction''}
         \<and> (''reply'' = ''behavior'' \<longrightarrow> behavior_sampling_allows g (max 0 0))
         \<and> gate_stage_limits g ''reply'' = Some 1
         \<and> int (length (prune (queue_of g ''global'') 61)) < max 1 1
         \<and> int (length (prune (queue_of g ''reply'') 61)) < 1"
    using sl p1 p2 by simp
  have "allow g ''reply'' 0 61 =
               Inr (True, g\<lparr>gate_calls := (gate_calls g)
                               (''global'' \<mapsto> prune (queue_of g ''global'') 61 @ [61],
                                ''reply'' \<mapsto> prune (queue_of g ''reply'') 61 @ [61])\<rparr>)"
    by (rule mp [OF spec [OF spec [OF spec [OF spec [OF ad]]]] hy])
  then have adm: "\<exists>g'. allow g ''reply'' 0 61 = Inr (True, g')" by (rule exI)
  have den': "\<forall>stage i. \<exists>g'. allow g stage i 1 = Inr (False, g')
                 \<and> (if stage \<in> {''reply'', ''behavior'', ''extraction''}
                        \<and> (stage = ''behavior'' \<longrightarrow> behavior_sampling_allows g (max 0 i))
                     then \<exists>d. gate_dropped g stage = Some d
                              \<and> gate_dropped g' stage = Some (d + 1)
                     else g' = g)" using den by (intro allI)
  have "?B g" using r den' sl p1 p2 adm by (intro conjI)
  then have "\<exists>g. ?B g" by (rule exI [of "?B" g])
  then show ?thesis using h1 h2 by (intro conjI)
qed

text \<open>
  The order of the clock values matters for the second form. With global ceiling 2 and
  behavior limit 1, a reply call at 0 and a behavior call at 30 are admitted; a behavior
  call at 61 is dropped by the behavior limit after it has pruned timestamp 0 from the
  global queue; a reply call that then reads the earlier clock value 59 finds one timestamp
  in the global queue and is admitted, although two admitted calls lie within the 60
  seconds before 59.
\<close>

lemma out_of_order_clock_admits:
  "admitted_times (LLMCallGate_init True 2 5 1 5 1)
      [Allow ''reply'' 0 0, Allow ''behavior'' 1 30, Allow ''behavior'' 1 61] = [0, 30]
   \<and> run_then_allow (LLMCallGate_init True 2 5 1 5 1)
      [Allow ''reply'' 0 0, Allow ''behavior'' 1 30, Allow ''behavior'' 1 61] ''reply'' 0 59
       = Inr (True, Some 0, Some 0)"
  by (simp add: run_then_allow_def allow_def LLMCallGate_init_def lookup_def prune_at_def
      append_at_def increment_at_def prune_def WINDOW_SECONDS_def behavior_sampling_allows_def)

text \<open>
  C3 as stated fails for a behavior call that the sampling pre-filter rejects. The gate
  has global ceiling 1 and sampling interval 3; one reply call is admitted at time 0, so
  the ceiling is reached. At time 1 the call \<open>allow('behavior', 2)\<close> returns false, and
  the behavior drop counter is 0 before and after the call: it is not incremented.
\<close>

theorem full_window_sampled_out_counterexample:
  "admitted_times (LLMCallGate_init True 1 1 1 1 3) [Allow ''reply'' 0 0] = [0]
   \<and> run_then_allow (LLMCallGate_init True 1 1 1 1 3) [Allow ''reply'' 0 0] ''behavior'' 2 1
       = Inr (False, Some 0, Some 0)"
  by (simp add: run_then_allow_def allow_def LLMCallGate_init_def lookup_def prune_at_def
      append_at_def prune_def WINDOW_SECONDS_def behavior_sampling_allows_def)

section \<open>Properties of the signal fusion engine\<close>

subsection \<open>Rounding, clamping and the rule evaluator\<close>

lemma rhe_cases: "round_half_even q = \<lfloor>q\<rfloor> \<or> round_half_even q = \<lfloor>q\<rfloor> + 1"
  by (simp add: round_half_even_def Let_def)

lemma rhe_of_int [simp]: "round_half_even (of_int k) = k"
  by (simp add: round_half_even_def)

lemma rhe_lower:
  assumes "of_int a \<le> q"
  shows "a \<le> round_half_even q"
proof -
  have "a \<le> \<lfloor>q\<rfloor>" using assms by (simp add: le_floor_iff)
  then show ?thesis using rhe_cases [of q] by auto
qed

lemma rhe_upper:
  assumes "q \<le> of_int b"
  shows "round_half_even q \<le> b"
proof (cases "\<lfloor>q\<rfloor> = b")
  case True
  have "of_int \<lfloor>q\<rfloor> \<le> q" by simp
  then have "q = of_int b" using assms True by simp
  then show ?thesis by simp
next
  case False
  have "\<lfloor>q\<rfloor> \<le> b" using assms by (simp add: floor_le_iff)
  then have "\<lfloor>q\<rfloor> + 1 \<le> b" using False by simp
  then show ?thesis using rhe_cases [of q] by auto
qed

lemma round2_idem [simp]: "round2 (round2 q) = round2 q"
  by (simp add: round2_def)

lemma round2_zero [simp]: "round2 0 = 0"
  by (simp add: round2_def round_half_even_def)

lemma round2_range:
  assumes "of_int a \<le> q" and "q \<le> of_int b"
  shows "of_int a \<le> round2 q \<and> round2 q \<le> of_int b"
proof -
  have "of_int (a * 100) \<le> q * 100" using assms(1) by simp
  then have l: "a * 100 \<le> round_half_even (q * 100)" by (rule rhe_lower)
  have "q * 100 \<le> of_int (b * 100)" using assms(2) by simp
  then have u: "round_half_even (q * 100) \<le> b * 100" by (rule rhe_upper)
  have "(of_int (a * 100) :: rat) \<le> of_int (round_half_even (q * 100))"
    using l by (simp only: of_int_le_iff)
  moreover have "(of_int (round_half_even (q * 100)) :: rat) \<le> of_int (b * 100)"
    using u by (simp only: of_int_le_iff)
  ultimately show ?thesis by (simp add: round2_def field_simps)
qed

lemma round2_0_10: "0 \<le> q \<Longrightarrow> q \<le> 10 \<Longrightarrow> 0 \<le> round2 q \<and> round2 q \<le> 10"
  using round2_range [of 0 q 10] by simp

lemma round2_0_1: "0 \<le> q \<Longrightarrow> q \<le> 1 \<Longrightarrow> 0 \<le> round2 q \<and> round2 q \<le> 1"
  using round2_range [of 0 q 1] by simp

lemma distinct_py_sorted_set [simp]: "distinct (py_sorted_set xs)"
  by (simp add: py_sorted_set_def)

lemma set_py_sorted_set [simp]: "set (py_sorted_set xs) = set xs"
  by (simp add: py_sorted_set_def)

lemma py_min_Fin [simp]: "py_min (Fin a) (Fin b) = Fin (min a b)"
  by (simp add: py_min_def min_def)

lemma py_max_Fin [simp]: "py_max (Fin a) (Fin b) = Fin (max a b)"
  by (simp add: py_max_def max_def)

lemma add_family_fst: "0 \<le> fst acc \<Longrightarrow> 0 \<le> w \<Longrightarrow> 0 \<le> fst (add_family b w t acc)"
  by (simp add: add_family_def)

lemma add_family_snd:
  "set (snd acc) \<subseteq> V \<Longrightarrow> t \<in> V \<Longrightarrow> set (snd (add_family b w t acc)) \<subseteq> V"
  by (simp add: add_family_def)

lemma clamp_fin:
  assumes "lo \<le> hi"
  shows "\<exists>q. py_max (Fin lo) (py_min (Fin hi) x) = Fin q \<and> lo \<le> q \<and> q \<le> hi"
  using assms by (cases x) (auto simp: py_min_def py_max_def)

lemma family_chain_nonneg:
  "0 \<le> fst (add_family b6 1 t6 (add_family b5 2 t5 (add_family b4 (5 / 2) t4
            (add_family b3 (3 / 2) t3 (add_family b2 2 t2 (add_family b1 2 t1 (0, [])))))))"
  by (intro add_family_fst) simp_all

lemma family_chain_vocab:
  "set (snd (add_family b6 w6 ''alternate_channel_push''
         (add_family b5 w5 ''external_link_pressure''
           (add_family b4 w4 ''verification_or_secret_request''
             (add_family b3 w3 ''reward_bait''
               (add_family b2 w2 ''authority_impersonation''
                 (add_family b1 w1 ''urgency'' (0, [])))))))) \<subseteq> VOCABULARY"
  by (intro add_family_snd) (simp_all add: VOCABULARY_def)

lemma rule_based_analysis_fields:
  "\<exists>s c. score (rule_based_analysis text) = Fin s \<and> 0 \<le> s \<and> s \<le> 10
       \<and> confidence (rule_based_analysis text) = Fin c \<and> 0 \<le> c \<and> c \<le> 1 \<and> round2 c = c"
proof (cases "text = []")
  case True
  then show ?thesis by (simp add: rule_based_analysis_def)
next
  case False
  define acc where "acc =
    add_family (re_search ALT_CHANNEL_PATTERN text) 1 ''alternate_channel_push''
      (add_family (re_search LINK_PRESSURE_PATTERN text) 2 ''external_link_pressure''
        (add_family (re_search VERIFY_PATTERN text) (5 / 2) ''verification_or_secret_request''
          (add_family (re_search REWARD_PATTERN text) (3 / 2) ''reward_bait''
            (add_family (re_search AUTHORITY_PATTERN text) 2 ''authority_impersonation''
              (add_family (re_search URGENCY_PATTERN text) 2 ''urgency'' (0, []))))))"
  have n: "0 \<le> fst acc" unfolding acc_def by (rule family_chain_nonneg)
  have s: "score (rule_based_analysis text) = Fin (round2 (min 10 (fst acc)))"
    using False by (simp add: rule_based_analysis_def Let_def acc_def)
  have c: "confidence (rule_based_analysis text) = Fin (round2 (min 1 (fst acc / 8)))"
    using False by (simp add: rule_based_analysis_def Let_def acc_def)
  have "0 \<le> min 10 (fst acc)" and "min 10 (fst acc) \<le> 10" using n by simp_all
  then have b1: "0 \<le> round2 (min 10 (fst acc)) \<and> round2 (min 10 (fst acc)) \<le> 10"
    by (rule round2_0_10)
  have "0 \<le> min 1 (fst acc / 8)" and "min 1 (fst acc / 8) \<le> 1" using n by simp_all
  then have b2: "0 \<le> round2 (min 1 (fst acc / 8)) \<and> round2 (min 1 (fst acc / 8)) \<le> 1"
    by (rule round2_0_1)
  show ?thesis using s c b1 b2 by simp
qed

lemma rule_based_analysis_indicators:
  "distinct (indicators (rule_based_analysis text))
   \<and> set (indicators (rule_based_analysis text)) \<subseteq> VOCABULARY"
proof (cases "text = []")
  case True
  then show ?thesis by (simp add: rule_based_analysis_def)
next
  case False
  then show ?thesis
    using family_chain_vocab
      [of "re_search ALT_CHANNEL_PATTERN text" 1 "re_search LINK_PRESSURE_PATTERN text" 2
          "re_search VERIFY_PATTERN text" "5 / 2" "re_search REWARD_PATTERN text" "3 / 2"
          "re_search AUTHORITY_PATTERN text" 2 "re_search URGENCY_PATTERN text" 2]
    by (simp add: rule_based_analysis_def Let_def)
qed

lemma llm_result_of_payload_fields:
  assumes "llm_result_of_payload env payload = Inr (Some j)"
  shows "\<exists>s c. score j = Fin s \<and> 0 \<le> s \<and> s \<le> 10
           \<and> confidence j = Fin c \<and> 0 \<le> c \<and> c \<le> 1 \<and> round2 c = c
           \<and> distinct (indicators j)"
proof -
  from assms obtain x y xs where
    sj: "score j = py_round2 (py_max (Fin 0) (py_min (Fin 10) x))" and
    cj: "confidence j = py_round2 (py_max (Fin 0) (py_min (Fin 1) y))" and
    ij: "indicators j = py_sorted_set xs"
    by (auto simp: llm_result_of_payload_def Let_def split: sum.splits py_error.splits)
  obtain q where q: "py_max (Fin 0) (py_min (Fin 10) x) = Fin q" "0 \<le> q" "q \<le> 10"
    using clamp_fin [of 0 10 x] by auto
  obtain p where p: "py_max (Fin 0) (py_min (Fin 1) y) = Fin p" "0 \<le> p" "p \<le> 1"
    using clamp_fin [of 0 1 y] by auto
  show ?thesis
    using sj cj ij q p round2_0_10 [of q] round2_0_1 [of p] by simp
qed

lemma llm_analysis_fields:
  assumes "llm_analysis env text openai gemini = Inr (Some j)"
  shows "\<exists>s c. score j = Fin s \<and> 0 \<le> s \<and> s \<le> 10
           \<and> confidence j = Fin c \<and> 0 \<le> c \<and> c \<le> 1 \<and> round2 c = c
           \<and> distinct (indicators j)"
proof -
  from assms obtain payload where "llm_result_of_payload env payload = Inr (Some j)"
    by (auto simp: llm_analysis_def Let_def split: if_splits option.splits pyval.splits)
  then show ?thesis by (rule llm_result_of_payload_fields)
qed

lemma analyze_raises:
  "llm_analysis env text openai gemini = Inl e \<Longrightarrow> analyze env text openai gemini = Inl e"
  by (simp add: analyze_def)

lemma analyze_rule_only:
  "llm_analysis env text openai gemini = Inr None
     \<Longrightarrow> analyze env text openai gemini = Inr (rule_based_analysis text)"
  by (simp add: analyze_def)

lemma analyze_fused:
  "llm_analysis env text openai gemini = Inr (Some j) \<Longrightarrow>
   analyze env text openai gemini =
     Inr \<lparr>score = py_round2 (py_min (Fin 10)
                     (py_add (py_scale (score (rule_based_analysis text)) (6 / 10))
                             (py_scale (score j) (4 / 10)))),
          confidence = py_round2 (py_min (Fin 1)
                         (py_max (confidence (rule_based_analysis text)) (confidence j))),
          indicators = py_sorted_set (indicators (rule_based_analysis text) @ indicators j),
          category_hint = (if hint_truthy (category_hint j) then category_hint j
                           else category_hint (rule_based_analysis text))\<rparr>"
  by (simp add: analyze_def Let_def)



subsection \<open>The evaluators on the example inputs\<close>


lemma llm_analysis_listed: "llm_analysis (example_builtins listed_payload) ''www.a'' (Some example_client) None =
    Inr (Some \<lparr>score = Fin 7, confidence = Fin (9 / 10),
               indicators = [''reward_bait'', ''urgency''],
               category_hint = Some ''UPI_FRAUD''\<rparr>)"
  by code_simp

lemma analyze_listed: "analyze (example_builtins listed_payload) ''www.a'' (Some example_client) None =
    Inr \<lparr>score = Fin 4, confidence = Fin (9 / 10),
         indicators = [''external_link_pressure'', ''reward_bait'', ''urgency''],
         category_hint = Some ''UPI_FRAUD''\<rparr>"
  by code_simp



lemma analyze_unlisted_indicator:
  "analyze (example_builtins unlisted_indicator_payload) ''www.a'' (Some example_client) None =
    Inr \<lparr>score = Fin (16 / 5), confidence = Fin (1 / 2),
         indicators = [''external_link_pressure'', ''foo''], category_hint = Some ''PHISHING''\<rparr>"
  by code_simp

lemma llm_analysis_no_provider: "llm_analysis env text None None = Inr None"
  by (simp add: llm_analysis_def has_key_def)

lemma rule_based_analysis_spec_example:
  "rule_based_analysis
     ''URGENT: Your SBI account is blocked. Verify your UPI PIN immediately by clicking http://example.com'' =
   \<lparr>score = Fin (17 / 2), confidence = Fin 1,
    indicators = [''authority_impersonation'', ''external_link_pressure'', ''urgency'',
                  ''verification_or_secret_request''],
    category_hint = Some ''PHISHING''\<rparr>"
  by code_simp

subsection \<open>Claims\<close>

text \<open>
  C9. On the empty message \<open>analyze\<close> returns the zero result (score 0, confidence 0,
  no indicator, no category) and does not raise, whatever the two provider clients are
  (absent or present, with or without a key) and whatever the runtime functions do:
  neither client is called.
\<close>

theorem analyze_empty_text:
  "analyze env [] openai gemini =
     Inr \<lparr>score = Fin 0, confidence = Fin 0, indicators = [], category_hint = None\<rparr>"
  by (simp add: analyze_def llm_analysis_def rule_based_analysis_def)

text \<open>
  C1. For any message, any pair of provider clients and any reply or payload they
  produce: the rule evaluator's result has a finite score in [0, 10], a finite confidence
  in [0, 1] and no indicator twice; when there is no judgment result, \<open>analyze\<close>
  returns the rule evaluator's result; when there is one, \<open>analyze\<close> returns a fused
  result within the same ranges; so every result that \<open>analyze\<close> returns is within the
  ranges.
\<close>

theorem analyze_within_ranges:
  "within_ranges (rule_based_analysis text)
   \<and> (llm_analysis env text openai gemini = Inr None \<longrightarrow>
        analyze env text openai gemini = Inr (rule_based_analysis text))
   \<and> (\<forall>j. llm_analysis env text openai gemini = Inr (Some j) \<longrightarrow>
        (\<exists>r. analyze env text openai gemini = Inr r \<and> within_ranges r))
   \<and> (\<forall>r. analyze env text openai gemini = Inr r \<longrightarrow> within_ranges r)"
proof -
  obtain a c where rf: "score (rule_based_analysis text) = Fin a" "0 \<le> a" "a \<le> 10"
      "confidence (rule_based_analysis text) = Fin c" "0 \<le> c" "c \<le> 1"
    using rule_based_analysis_fields [of "text"] by (elim exE conjE)
  have rd: "distinct (indicators (rule_based_analysis text))"
    using rule_based_analysis_indicators [of "text"] by simp
  have rule_ok: "within_ranges (rule_based_analysis text)"
    unfolding within_ranges_def using rf rd by simp
  have fused: "\<exists>r. analyze env text openai gemini = Inr r \<and> within_ranges r"
    if l: "llm_analysis env text openai gemini = Inr (Some j)" for j
  proof -
    obtain b d where jf: "score j = Fin b" "0 \<le> b" "b \<le> 10"
        "confidence j = Fin d" "0 \<le> d" "d \<le> 1"
      using llm_analysis_fields [OF l] by (elim exE conjE)
    have "0 \<le> min 10 (a * (6 / 10) + b * (4 / 10))" using rf(2) jf(2) by simp
    then have s: "0 \<le> round2 (min 10 (a * (6 / 10) + b * (4 / 10)))
                \<and> round2 (min 10 (a * (6 / 10) + b * (4 / 10))) \<le> 10"
      by (intro round2_0_10) simp_all
    have "0 \<le> min 1 (max c d)" using rf(5) jf(5) by simp
    then have k: "0 \<le> round2 (min 1 (max c d)) \<and> round2 (min 1 (max c d)) \<le> 1"
      by (intro round2_0_1) simp_all
    show ?thesis
      using analyze_fused [OF l] rf(1,4) jf(1,4) s k
      by (simp add: within_ranges_def)
  qed
  have every: "within_ranges r" if a: "analyze env text openai gemini = Inr r" for r
  proof (cases "llm_analysis env text openai gemini")
    case (Inl e)
    then show ?thesis using a analyze_raises [OF Inl] by simp
  next
    case (Inr res)
    show ?thesis
    proof (cases res)
      case None
      then show ?thesis using a Inr analyze_rule_only [of env "text" openai gemini] rule_ok
        by simp
    next
      case (Some j)
      then show ?thesis using a Inr fused [of j] by auto
    qed
  qed
  show ?thesis
    using rule_ok fused every analyze_rule_only [of env "text" openai gemini]
    by (intro conjI allI impI)
qed

theorem analyze_within_ranges_witness:
  "llm_analysis (example_builtins listed_payload) ''www.a'' (Some example_client) None =
     Inr (Some \<lparr>score = Fin 7, confidence = Fin (9 / 10),
               indicators = [''reward_bait'', ''urgency''],
               category_hint = Some ''UPI_FRAUD''\<rparr>)
   \<and> (\<exists>r. analyze (example_builtins listed_payload) ''www.a'' (Some example_client) None = Inr r
          \<and> within_ranges r)
   \<and> llm_analysis (example_builtins listed_payload) ''www.a'' None None = Inr None
   \<and> analyze (example_builtins listed_payload) ''www.a'' None None =
        Inr (rule_based_analysis ''www.a'')
   \<and> within_ranges (rule_based_analysis ''www.a'')"
proof -
  have f: "\<exists>r. analyze (example_builtins listed_payload) ''www.a'' (Some example_client) None
               = Inr r \<and> within_ranges r"
    by (rule analyze_within_ranges [THEN conjunct2, THEN conjunct2, THEN conjunct1, THEN spec,
          THEN mp, OF llm_analysis_listed])
  have g: "analyze (example_builtins listed_payload) ''www.a'' None None =
        Inr (rule_based_analysis ''www.a'')"
    by (rule analyze_within_ranges [THEN conjunct2, THEN conjunct1, THEN mp,
          OF llm_analysis_no_provider])
  have h: "within_ranges (rule_based_analysis ''www.a'')"
    by (rule analyze_within_ranges [THEN conjunct1])
  show ?thesis by (intro conjI llm_analysis_listed f llm_analysis_no_provider g h)
qed

text \<open>
  C4. For the example message of the specification and no provider configured,
  \<open>analyze\<close> returns score 8.5, confidence 1.0, category hint PHISHING, and exactly
  the four indicators urgency, authority_impersonation, verification_or_secret_request and
  external_link_pressure (in sorted order).
\<close>

theorem analyze_spec_example:
  "analyze env
     ''URGENT: Your SBI account is blocked. Verify your UPI PIN immediately by clicking http://example.com''
     None None =
   Inr \<lparr>score = Fin (17 / 2), confidence = Fin 1,
        indicators = [''authority_impersonation'', ''external_link_pressure'', ''urgency'',
                      ''verification_or_secret_request''],
        category_hint = Some ''PHISHING''\<rparr>"
  by (simp only: analyze_rule_only [OF llm_analysis_no_provider] rule_based_analysis_spec_example)




text \<open>
  C5 (amended). Every indicator of the rule evaluator's result is one of the six
  vocabulary tags, and that result is what \<open>analyze\<close> returns when there is no
  judgment result. When there is one, \<open>analyze\<close> returns a result whose indicators are
  the union of the rule evaluator's and the judgment's, so each of them is one of the six
  tags or a tag of the judgment result. The tags of the judgment result are the provider's
  strings, stripped, and are not compared with the vocabulary.
\<close>

theorem analyze_indicators_vocabulary:
  "set (indicators (rule_based_analysis text)) \<subseteq> VOCABULARY
   \<and> (llm_analysis env text openai gemini = Inr None \<longrightarrow>
        analyze env text openai gemini = Inr (rule_based_analysis text))
   \<and> (\<forall>j. llm_analysis env text openai gemini = Inr (Some j) \<longrightarrow>
        (\<exists>r. analyze env text openai gemini = Inr r
           \<and> set (indicators r) = set (indicators (rule_based_analysis text)) \<union> set (indicators j)
           \<and> set (indicators r) \<subseteq> VOCABULARY \<union> set (indicators j)))"
proof -
  have v: "set (indicators (rule_based_analysis text)) \<subseteq> VOCABULARY"
    using rule_based_analysis_indicators [of "text"] by simp
  have fused: "\<exists>r. analyze env text openai gemini = Inr r
           \<and> set (indicators r) = set (indicators (rule_based_analysis text)) \<union> set (indicators j)
           \<and> set (indicators r) \<subseteq> VOCABULARY \<union> set (indicators j)"
    if l: "llm_analysis env text openai gemini = Inr (Some j)" for j
    using analyze_fused [OF l] v by auto
  show ?thesis
    using v fused analyze_rule_only [of env "text" openai gemini]
    by (intro conjI allI impI)
qed

theorem analyze_indicators_vocabulary_witness:
  "llm_analysis (example_builtins listed_payload) ''www.a'' (Some example_client) None =
     Inr (Some \<lparr>score = Fin 7, confidence = Fin (9 / 10),
               indicators = [''reward_bait'', ''urgency''],
               category_hint = Some ''UPI_FRAUD''\<rparr>)
   \<and> (\<exists>r. analyze (example_builtins listed_payload) ''www.a'' (Some example_client) None = Inr r
          \<and> set (indicators r) =
              set (indicators (rule_based_analysis ''www.a''))
              \<union> set (indicators \<lparr>score = Fin 7, confidence = Fin (9 / 10),
                                  indicators = [''reward_bait'', ''urgency''],
                                  category_hint = Some ''UPI_FRAUD''\<rparr>)
          \<and> set (indicators r) \<subseteq>
              VOCABULARY \<union> set (indicators \<lparr>score = Fin 7, confidence = Fin (9 / 10),
                                  indicators = [''reward_bait'', ''urgency''],
                                  category_hint = Some ''UPI_FRAUD''\<rparr>))"
  by (rule conjI [OF llm_analysis_listed
        analyze_indicators_vocabulary [THEN conjunct2, THEN conjunct2, THEN spec, THEN mp,
          OF llm_analysis_listed]])

text \<open>
  C5 as stated fails for a tag contributed by the provider: with the indicator list
  \<open>["foo"]\<close> in the payload, the fused result for the message \<open>www.a\<close> carries the
  tag \<open>foo\<close>, which is none of the six.
\<close>

theorem provider_tag_unfiltered_counterexample:
  "analyze (example_builtins unlisted_indicator_payload) ''www.a'' (Some example_client) None =
     Inr \<lparr>score = Fin (16 / 5), confidence = Fin (1 / 2),
          indicators = [''external_link_pressure'', ''foo''], category_hint = Some ''PHISHING''\<rparr>
   \<and> ''foo'' \<notin> VOCABULARY"
  by (intro conjI analyze_unlisted_indicator) (simp add: VOCABULARY_def)

end
